theory Spec2Isabelle
  imports Main
begin

section \<open>Data model of \<open>src/index.ts\<close>\<close>

text \<open>
  The bus keeps JavaScript objects that are shared by reference: a \<open>Subscription\<close> is held
  by its topic's \<open>subscriptions\<close> array and by the caller that got it from \<open>subscribe\<close>,
  and \<open>unsubscribe\<close> and \<open>sendMessage\<close> mutate it in place. Objects therefore live in a store
  and are named by references; an array of objects is a list of references.

  JavaScript numbers are modelled as \<open>int\<close> (ids and counters are integers in every run
  that starts from \<open>getTopic\<close>; the loss of precision beyond \<open>2^53\<close> is not modelled).
  A callback is an opaque function: it is modelled by its name, and calling it is recorded
  in the world's list of calls, together with the \<open>this\<close> object of the call. Callbacks are
  taken to return, and not to call back into the bus. \<open>new Date()\<close> is the argument \<open>now\<close>
  of \<open>sendMessage\<close>. The \<open>Bus\<close> object is passed to \<open>getTopic\<close> and returned by it.
\<close>

type_synonym MessageID = int
type_synonym TopicID = string
type_synonym SubscriptionID = int
type_synonym SubscriptionCallback = nat
type_synonym sref = nat
type_synonym tref = nat

record 'p Message =
  id_msg :: MessageID
  payload :: 'p
  timestamp :: nat

record 'p Topic =
  name :: TopicID
  messages :: "'p Message list"
  subscriptions :: "sref list"
  maxLogSize :: int
  nextSubId :: int
  nextMessageID :: int

record Bus =
  topics :: "tref list"

record Subscription =
  id_sub :: SubscriptionID
  topic :: TopicID
  lastMessageId :: "MessageID option"
  callback :: SubscriptionCallback
  active :: bool

datatype BacklogStrategy = IGNORE | LATEST | FULL

record SubsciptionOptions =
  id_opt :: "SubscriptionID option"
  backlogStrategy :: "BacklogStrategy option"
  startActive :: "bool option"

text \<open>One call of a callback: the \<open>this\<close> object (\<open>subscription.callback(message)\<close> binds
  the subscription, a plain \<open>callback(message)\<close> binds nothing), the function, the argument.\<close>

type_synonym 'p call = "sref option \<times> SubscriptionCallback \<times> 'p Message"

record 'p World =
  topic_heap :: "tref \<Rightarrow> 'p Topic"
  sub_heap :: "sref \<Rightarrow> Subscription"
  next_tref :: tref
  next_sref :: sref
  calls :: "'p call list"

text \<open>The world before any object is allocated.\<close>

definition init_World :: "'p World" where
  "init_World =
     \<lparr>topic_heap = (\<lambda>_. \<lparr>name = [], messages = [], subscriptions = [], maxLogSize = - 1,
                          nextSubId = 0, nextMessageID = 0\<rparr>),
      sub_heap = (\<lambda>_. \<lparr>id_sub = 0, topic = [], lastMessageId = None, callback = 0,
                        active = False\<rparr>),
      next_tref = 0, next_sref = 0, calls = []\<rparr>"

definition upd_topic :: "'p World \<Rightarrow> tref \<Rightarrow> ('p Topic \<Rightarrow> 'p Topic) \<Rightarrow> 'p World" where
  "upd_topic w t f = w\<lparr>topic_heap := (topic_heap w)(t := f (topic_heap w t))\<rparr>"

definition upd_sub :: "'p World \<Rightarrow> sref \<Rightarrow> (Subscription \<Rightarrow> Subscription) \<Rightarrow> 'p World" where
  "upd_sub w r f = w\<lparr>sub_heap := (sub_heap w)(r := f (sub_heap w r))\<rparr>"

text \<open>Calling the function \<open>cb\<close> on \<open>m\<close> with the given \<open>this\<close>.\<close>

definition invoke :: "sref option \<Rightarrow> SubscriptionCallback \<Rightarrow> 'p Message \<Rightarrow> 'p World \<Rightarrow> 'p World" where
  "invoke this cb m w = w\<lparr>calls := calls w @ [(this, cb, m)]\<rparr>"

subsection \<open>JavaScript truthiness and array helpers\<close>

text \<open>\<open>undefined\<close>, \<open>null\<close>, \<open>0\<close> and \<open>false\<close> are falsy.\<close>

definition truthy_num :: "int option \<Rightarrow> bool" where
  "truthy_num x = (case x of None \<Rightarrow> False | Some k \<Rightarrow> k \<noteq> 0)"

definition truthy_bool :: "bool option \<Rightarrow> bool" where
  "truthy_bool x = (case x of None \<Rightarrow> False | Some b \<Rightarrow> b)"

text \<open>\<open>Array.prototype.findIndex\<close>: the first index whose element satisfies \<open>P\<close>, else \<open>-1\<close>.\<close>

fun findIndex :: "('a \<Rightarrow> bool) \<Rightarrow> 'a list \<Rightarrow> int" where
  "findIndex P [] = - 1"
| "findIndex P (x # xs) =
     (if P x then 0 else (let i = findIndex P xs in if i = - 1 then - 1 else i + 1))"

text \<open>\<open>xs.filter((_, idx) => P idx)\<close>: the elements whose index satisfies \<open>P\<close>.\<close>

definition filter_idx :: "(int \<Rightarrow> bool) \<Rightarrow> 'a list \<Rightarrow> 'a list" where
  "filter_idx P xs = map snd (filter (\<lambda>(i, x). P (int i)) (enumerate 0 xs))"

section \<open>Operations\<close>

subsection \<open>\<open>getTopic\<close>\<close>

definition getTopic :: "'p World \<Rightarrow> Bus \<Rightarrow> TopicID \<Rightarrow> int option \<Rightarrow> tref \<times> Bus \<times> 'p World" where
  "getTopic w bus nm maxLogSize' =
     (case find (\<lambda>t. name (topic_heap w t) = nm) (topics bus) of
        Some maybeExisting \<Rightarrow> (maybeExisting, bus, w)
      | None \<Rightarrow>
          (let tp = \<lparr>name = nm, messages = [], subscriptions = [],
                     maxLogSize = (if truthy_num maxLogSize' then the maxLogSize' else - 1),
                     nextSubId = 0, nextMessageID = 0\<rparr>;
               t = next_tref w
           in (t, bus\<lparr>topics := topics bus @ [t]\<rparr>,
               w\<lparr>topic_heap := (topic_heap w)(t := tp), next_tref := Suc t\<rparr>)))"

subsection \<open>\<open>subscribe\<close>\<close>

text \<open>The defaults of the options, as lines 126 to 130 compute them.\<close>

definition backlogStrategy_of :: "SubsciptionOptions option \<Rightarrow> BacklogStrategy" where
  "backlogStrategy_of options =
     (case options of
        Some opts \<Rightarrow> (case backlogStrategy opts of Some s \<Rightarrow> s | None \<Rightarrow> FULL)
      | None \<Rightarrow> FULL)"

definition startActive_of :: "SubsciptionOptions option \<Rightarrow> bool" where
  "startActive_of options =
     (if (case options of Some opts \<Rightarrow> truthy_bool (startActive opts) | None \<Rightarrow> False)
      then the (startActive (the options)) else True)"

text \<open>\<open>options.id\<close> when \<open>options\<close> is there and its \<open>id\<close> is not \<open>undefined\<close>.\<close>

definition id_given :: "SubsciptionOptions option \<Rightarrow> SubscriptionID option" where
  "id_given options = (case options of Some opts \<Rightarrow> id_opt opts | None \<Rightarrow> None)"

definition id_of :: "'p Topic \<Rightarrow> SubsciptionOptions option \<Rightarrow> SubscriptionID" where
  "id_of tp options = (case id_given options of Some i \<Rightarrow> i | None \<Rightarrow> nextSubId tp)"

text \<open>Lines 133 and 134: the newest message of the log and its id, \<open>null\<close> on an empty log.\<close>

definition lastMessage_of :: "'p Message list \<Rightarrow> 'p Message option" where
  "lastMessage_of msgs = (if length msgs > 0 then Some (msgs ! (length msgs - 1)) else None)"

definition lastMessageId_of :: "'p Message list \<Rightarrow> MessageID option" where
  "lastMessageId_of msgs = (case lastMessage_of msgs of Some m \<Rightarrow> Some (id_msg m) | None \<Rightarrow> None)"

text \<open>Line 135: the subscription of the topic that has the id, if there is one.\<close>

definition maybeExisting_of :: "'p World \<Rightarrow> tref \<Rightarrow> SubscriptionID \<Rightarrow> sref option" where
  "maybeExisting_of w t ident =
     find (\<lambda>r. id_sub (sub_heap w r) = ident) (subscriptions (topic_heap w t))"

text \<open>The replay of the update path (the \<open>switch\<close> at lines 144 to 159).\<close>

definition replay_existing ::
  "BacklogStrategy \<Rightarrow> SubscriptionCallback \<Rightarrow> 'p Message list \<Rightarrow> 'p Message \<Rightarrow> Subscription
     \<Rightarrow> 'p World \<Rightarrow> 'p World" where
  "replay_existing strategy cb msgs lastMessage maybeExisting w =
     (case strategy of
        FULL \<Rightarrow>
          (let lastSeenMessageIndex =
                 findIndex (\<lambda>message. Some (id_msg message) = lastMessageId maybeExisting) msgs;
               backlog = filter_idx (\<lambda>idx. idx > lastSeenMessageIndex) msgs
           in fold (\<lambda>message. invoke None cb message) backlog w)
      | LATEST \<Rightarrow> invoke None cb lastMessage w
      | IGNORE \<Rightarrow> w)"

text \<open>The replay of the creation path (the \<open>switch\<close> at lines 169 to 180).\<close>

definition replay_new ::
  "BacklogStrategy \<Rightarrow> SubscriptionCallback \<Rightarrow> 'p Message list \<Rightarrow> 'p Message option
     \<Rightarrow> 'p World \<Rightarrow> 'p World" where
  "replay_new strategy cb msgs lastMessage w =
     (case strategy of
        FULL \<Rightarrow> fold (\<lambda>message. invoke None cb message) msgs w
      | LATEST \<Rightarrow> (case lastMessage of Some m \<Rightarrow> invoke None cb m w | None \<Rightarrow> w)
      | IGNORE \<Rightarrow> w)"

definition subscribe ::
  "'p World \<Rightarrow> tref \<Rightarrow> SubscriptionCallback \<Rightarrow> SubsciptionOptions option \<Rightarrow> sref \<times> 'p World" where
  "subscribe w t cb options =
     (let strategy = backlogStrategy_of options;
          startActive' = startActive_of options;
          ident = id_of (topic_heap w t) options;
          topicName = name (topic_heap w t);
          msgs = messages (topic_heap w t);
          lastMessage = lastMessage_of msgs;
          lastMessageId' = lastMessageId_of msgs
      in case maybeExisting_of w t ident of
           Some r \<Rightarrow>
             (let w1 = (if truthy_num (lastMessageId (sub_heap w r)) \<and>
                           lastMessageId (sub_heap w r) \<noteq> lastMessageId' \<and>
                           lastMessage \<noteq> None \<and> startActive'
                        then replay_existing strategy cb msgs (the lastMessage) (sub_heap w r) w
                        else w);
                  w2 = upd_sub w1 r (\<lambda>s. s\<lparr>callback := cb\<rparr>);
                  w3 = upd_sub w2 r (\<lambda>s. s\<lparr>lastMessageId := lastMessageId'\<rparr>);
                  w4 = upd_sub w3 r (\<lambda>s. s\<lparr>active := startActive'\<rparr>)
              in (r, w4))
         | None \<Rightarrow>
             (let w1 = replay_new strategy cb msgs lastMessage w;
                  subscription = \<lparr>id_sub = ident, topic = topicName,
                                  lastMessageId = lastMessageId', callback = cb,
                                  active = startActive'\<rparr>;
                  r = next_sref w1;
                  w2 = w1\<lparr>sub_heap := (sub_heap w1)(r := subscription), next_sref := Suc r\<rparr>;
                  w3 = upd_topic w2 t (\<lambda>x. x\<lparr>subscriptions := subscriptions x @ [r]\<rparr>);
                  w4 = upd_topic w3 t (\<lambda>x. x\<lparr>nextSubId := nextSubId x + 1\<rparr>)
              in (r, w4)))"

subsection \<open>\<open>cleanOldMessages\<close> and \<open>sendMessage\<close>\<close>

text \<open>
  The \<open>while\<close> loop of \<open>cleanOldMessages\<close>. \<open>shift()\<close> on an empty array removes nothing, which
  is \<open>tl []\<close>; with a negative bound the condition stays true and the loop does not end,
  which is the value \<open>None\<close>.
\<close>

partial_function (option) cleanLoop :: "int \<Rightarrow> 'a list \<Rightarrow> 'a list option" where
  "cleanLoop k ms = (if int (length ms) > k then cleanLoop k (tl ms) else Some ms)"

declare cleanLoop.simps [code]

definition cleanOldMessages :: "'p World \<Rightarrow> tref \<Rightarrow> 'p World option" where
  "cleanOldMessages w t =
     (if maxLogSize (topic_heap w t) = - 1 then Some w
      else (case cleanLoop (maxLogSize (topic_heap w t)) (messages (topic_heap w t)) of
              None \<Rightarrow> None
            | Some ms \<Rightarrow> Some (upd_topic w t (\<lambda>x. x\<lparr>messages := ms\<rparr>))))"

text \<open>The body of the \<open>forEach\<close> of \<open>sendMessage\<close>.\<close>

definition deliver :: "'p Message \<Rightarrow> sref \<Rightarrow> 'p World \<Rightarrow> 'p World" where
  "deliver message r w =
     (if active (sub_heap w r)
      then upd_sub (invoke (Some r) (callback (sub_heap w r)) message w) r
             (\<lambda>s. s\<lparr>lastMessageId := Some (id_msg message)\<rparr>)
      else w)"

definition sendMessage :: "'p World \<Rightarrow> tref \<Rightarrow> 'p \<Rightarrow> nat \<Rightarrow> 'p World option" where
  "sendMessage w t payload' now =
     (let message = \<lparr>id_msg = nextMessageID (topic_heap w t), payload = payload',
                     timestamp = now\<rparr>;
          w1 = upd_topic w t (\<lambda>x. x\<lparr>messages := messages x @ [message]\<rparr>);
          w2 = upd_topic w1 t (\<lambda>x. x\<lparr>nextMessageID := nextMessageID x + 1\<rparr>)
      in case cleanOldMessages w2 t of
           None \<Rightarrow> None
         | Some w3 \<Rightarrow> Some (fold (deliver message) (subscriptions (topic_heap w3 t)) w3))"

subsection \<open>\<open>unsubscribe\<close>\<close>

definition unsubscribe :: "'p World \<Rightarrow> sref \<Rightarrow> 'p World" where
  "unsubscribe w subscription = upd_sub w subscription (\<lambda>s. s\<lparr>active := False\<rparr>)"

subsection \<open>Sequences of calls\<close>

text \<open>A sequence of \<open>sendMessage\<close> calls, each with its topic, payload and clock reading.\<close>

fun sendMessages :: "'p World \<Rightarrow> (tref \<times> 'p \<times> nat) list \<Rightarrow> 'p World option" where
  "sendMessages w [] = Some w"
| "sendMessages w (x # xs) =
     (case sendMessage w (fst x) (fst (snd x)) (snd (snd x)) of
        None \<Rightarrow> None
      | Some w' \<Rightarrow> sendMessages w' xs)"

text \<open>
  A run of the bus: the calls a client makes, one after the other. A run that meets a
  \<open>sendMessage\<close> that does not return does not return either.
\<close>

datatype 'p action =
    GetTopic Bus TopicID "int option"
  | Subscribe tref SubscriptionCallback "SubsciptionOptions option"
  | SendMessage tref 'p nat
  | Unsubscribe sref

fun step :: "'p World \<Rightarrow> 'p action \<Rightarrow> 'p World option" where
  "step w (GetTopic bus nm maxLogSize') = Some (snd (snd (getTopic w bus nm maxLogSize')))"
| "step w (Subscribe t cb options) = Some (snd (subscribe w t cb options))"
| "step w (SendMessage t p now) = sendMessage w t p now"
| "step w (Unsubscribe s) = Some (unsubscribe w s)"

fun run :: "'p World \<Rightarrow> 'p action list \<Rightarrow> 'p World option" where
  "run w [] = Some w"
| "run w (a # as) = (case step w a of None \<Rightarrow> None | Some w' \<Rightarrow> run w' as)"

subsection \<open>Invariants of the worlds of a run\<close>

text \<open>No subscription is twice in a topic's list or in the lists of two topics, and all of
  them have been allocated.\<close>

definition subs_ok :: "'p World \<Rightarrow> bool" where
  "subs_ok w =
     (\<forall>t. distinct (subscriptions (topic_heap w t)) \<and>
          (\<forall>r\<in>set (subscriptions (topic_heap w t)). r < next_sref w) \<and>
          (\<forall>t'. t' \<noteq> t \<longrightarrow>
             set (subscriptions (topic_heap w t)) \<inter> set (subscriptions (topic_heap w t')) = {}))"

text \<open>The ids of a log increase and are below \<open>nextMessageID\<close>; no topic has the bound \<open>0\<close>.\<close>

definition log_ok :: "'p World \<Rightarrow> bool" where
  "log_ok w =
     (\<forall>t. sorted_wrt (<) (map id_msg (messages (topic_heap w t))) \<and>
          (\<forall>m\<in>set (messages (topic_heap w t)). id_msg m < nextMessageID (topic_heap w t)) \<and>
          maxLogSize (topic_heap w t) \<noteq> 0)"

text \<open>A cursor is \<open>null\<close>, or the id of a message of the log, or older than the whole log.\<close>

definition cursor_ok :: "MessageID option \<Rightarrow> 'p Message list \<Rightarrow> MessageID \<Rightarrow> bool" where
  "cursor_ok c msgs n =
     (case c of
        None \<Rightarrow> True
      | Some i \<Rightarrow> i < n \<and> (i \<in> id_msg ` set msgs \<or> (\<forall>m\<in>set msgs. i < id_msg m)))"

definition cursors_ok :: "'p World \<Rightarrow> bool" where
  "cursors_ok w =
     (\<forall>t. \<forall>r\<in>set (subscriptions (topic_heap w t)).
        cursor_ok (lastMessageId (sub_heap w r)) (messages (topic_heap w t))
          (nextMessageID (topic_heap w t)))"

definition wf_World :: "'p World \<Rightarrow> bool" where
  "wf_World w = (subs_ok w \<and> log_ok w \<and> cursors_ok w)"

text \<open>A call that is not a \<open>subscribe\<close> on topic \<open>t\<close> with an explicit id that \<open>t\<close> does not
  have.\<close>

definition keeps_ids :: "'p World \<Rightarrow> tref \<Rightarrow> 'p action \<Rightarrow> bool" where
  "keeps_ids w t a =
     (case a of
        Subscribe t' cb options \<Rightarrow>
          (case id_given options of
             None \<Rightarrow> True
           | Some i \<Rightarrow> (if t' = t then maybeExisting_of w t i \<noteq> None else True))
      | _ \<Rightarrow> True)"

text \<open>Topic \<open>t\<close> has the same list of subscriptions, with the same ids, and the same
  \<open>nextSubId\<close> in both worlds.\<close>

definition same_ids :: "'p World \<Rightarrow> 'p World \<Rightarrow> tref \<Rightarrow> bool" where
  "same_ids w w' t =
     (subscriptions (topic_heap w' t) = subscriptions (topic_heap w t) \<and>
      nextSubId (topic_heap w' t) = nextSubId (topic_heap w t) \<and>
      map (\<lambda>r. id_sub (sub_heap w' r)) (subscriptions (topic_heap w t)) =
        map (\<lambda>r. id_sub (sub_heap w r)) (subscriptions (topic_heap w t)))"

subsection \<open>Concrete runs\<close>

text \<open>Option objects: \<open>{backlogStrategy: s}\<close>, \<open>{id: i}\<close> and \<open>{startActive: false}\<close>.\<close>

definition opt_strategy :: "BacklogStrategy \<Rightarrow> SubsciptionOptions option" where
  "opt_strategy s = Some \<lparr>id_opt = None, backlogStrategy = Some s, startActive = None\<rparr>"

definition opt_id :: "SubscriptionID \<Rightarrow> SubsciptionOptions option" where
  "opt_id i = Some \<lparr>id_opt = Some i, backlogStrategy = None, startActive = None\<rparr>"

definition opt_inactive :: "SubsciptionOptions option" where
  "opt_inactive = Some \<lparr>id_opt = None, backlogStrategy = None, startActive = Some False\<rparr>"

text \<open>\<open>getTopic(getBus(), 'demo', maxLogSize)\<close> in the initial world: the topic is reference \<open>0\<close>.\<close>

definition fresh_topic :: "int option \<Rightarrow> nat World" where
  "fresh_topic maxLogSize' = snd (snd (getTopic init_World \<lparr>topics = []\<rparr> ''demo'' maxLogSize'))"

text \<open>The run of the repository's first test: a subscription (reference \<open>0\<close>, id \<open>0\<close>,
  callback \<open>1\<close>) on an unbounded topic and four messages; then the subscription
  unsubscribed and four more messages.\<close>

definition run_four :: "nat World" where
  "run_four =
     the (sendMessages (snd (subscribe (fresh_topic None) 0 1 None))
            [(0, 10, 100), (0, 11, 101), (0, 12, 102), (0, 13, 103)])"

definition run_test :: "nat World" where
  "run_test =
     the (sendMessages (unsubscribe run_four 0)
            [(0, 14, 104), (0, 15, 105), (0, 16, 106), (0, 17, 107)])"

text \<open>Two subscriptions (callbacks \<open>1\<close> and \<open>2\<close>) on an empty unbounded topic, the first one
  unsubscribed.\<close>

definition run_two_subs :: "nat World" where
  "run_two_subs =
     unsubscribe (snd (subscribe (snd (subscribe (fresh_topic None) 0 1 None)) 0 2 None)) 0"

text \<open>A subscription made on an empty log (its cursor is \<open>null\<close>), unsubscribed, and two
  messages sent after that.\<close>

definition run_null_cursor :: "nat World" where
  "run_null_cursor =
     (let w = snd (subscribe (fresh_topic None) 0 1 None);
          w = unsubscribe w 0
      in the (sendMessages w [(0, 10, 100), (0, 11, 101)]))"

text \<open>A message (id \<open>0\<close>), then a subscription (its cursor is \<open>0\<close>), unsubscribed, and two
  more messages.\<close>

definition run_zero_cursor :: "nat World" where
  "run_zero_cursor =
     (let w = the (sendMessages (fresh_topic None) [(0, 10, 100)]);
          w = snd (subscribe w 0 1 None);
          w = unsubscribe w 0
      in the (sendMessages w [(0, 11, 101), (0, 12, 102)]))"

text \<open>A topic that keeps one message: a message (id \<open>0\<close>), a subscription (its cursor is
  \<open>0\<close>), unsubscribed, and a second message, which evicts the first.\<close>

definition run_evicted_zero :: "nat World" where
  "run_evicted_zero =
     (let w = the (sendMessages (fresh_topic (Some 1)) [(0, 10, 100)]);
          w = snd (subscribe w 0 1 None);
          w = unsubscribe w 0
      in the (sendMessages w [(0, 11, 101)]))"

text \<open>A topic whose only subscription was made with the explicit id \<open>1\<close>: \<open>nextSubId\<close> is
  \<open>1\<close> as well.\<close>

definition run_stuck :: "nat World" where
  "run_stuck = snd (subscribe (fresh_topic None) 0 1 (opt_id 1))"

text \<open>After that, a subscription with the explicit id \<open>7\<close>, which the topic does not have.\<close>

definition run_unstuck :: "nat World" where
  "run_unstuck = snd (subscribe run_stuck 0 2 (opt_id 7))"

text \<open>From the same topic, a run without such a call: calls without an id and with the id
  \<open>1\<close>, a message, an \<open>unsubscribe\<close>, and a second topic with a subscription of its own.\<close>

definition run_stuck_more :: "nat World" where
  "run_stuck_more =
     the (run run_stuck
            [Subscribe 0 2 None, SendMessage 0 10 100, Subscribe 0 3 (opt_strategy LATEST),
             Unsubscribe 0, Subscribe 0 4 (opt_id 1), GetTopic \<lparr>topics = [0]\<rparr> ''other'' (Some 3),
             Subscribe 1 5 (opt_id 9)])"

section \<open>Auxiliary facts\<close>

subsection \<open>Options, array helpers and replay\<close>

lemma startActive_of_True: "startActive_of options = True"
proof (cases options)
  case None
  then show ?thesis by (simp add: startActive_of_def)
next
  case (Some opts)
  then show ?thesis
    by (cases "startActive opts") (auto simp: startActive_of_def truthy_bool_def)
qed

lemma findIndex_ge: "- 1 \<le> findIndex P xs"
  by (induction xs) (simp_all add: Let_def)

lemma findIndex_none: "(findIndex P xs = - 1) = (\<forall>x\<in>set xs. \<not> P x)"
proof (induction xs)
  case Nil
  show ?case by simp
next
  case (Cons x xs)
  have "findIndex P xs + 1 \<noteq> - 1" using findIndex_ge [of P xs] by arith
  with Cons show ?case by (simp add: Let_def)
qed

lemma findIndex_found:
  "findIndex P xs \<noteq> - 1 \<Longrightarrow>
     nat (findIndex P xs) < length xs \<and> P (xs ! nat (findIndex P xs)) \<and>
     (\<forall>j < nat (findIndex P xs). \<not> P (xs ! j))"
proof (induction xs)
  case Nil
  then show ?case by simp
next
  case (Cons x xs)
  show ?case
  proof (cases "P x")
    case True
    then show ?thesis by simp
  next
    case False
    with Cons.prems have ne: "findIndex P xs \<noteq> - 1" by (simp add: Let_def split: if_splits)
    have ge: "0 \<le> findIndex P xs" using findIndex_ge [of P xs] ne by arith
    have eq: "nat (findIndex P (x # xs)) = Suc (nat (findIndex P xs))"
      using False ne ge by (simp add: Let_def nat_add_distrib)
    from Cons.IH [OF ne] False show ?thesis
      unfolding eq by (auto simp: less_Suc_eq_0_disj)
  qed
qed

lemma filter_enumerate_gt:
  "- 1 \<le> k \<Longrightarrow>
   map snd (filter (\<lambda>(i, x). k < int i) (enumerate n xs)) = drop (nat (k + 1) - n) xs"
proof (induction xs arbitrary: n)
  case Nil
  show ?case by simp
next
  case (Cons x xs)
  show ?case
  proof (cases "k < int n")
    case True
    then have z: "nat (k + 1) - n = 0" "nat (k + 1) - Suc n = 0" by simp_all
    from Cons.IH [OF Cons.prems, of "Suc n"] True show ?thesis
      unfolding z by simp
  next
    case False
    then have "nat (k + 1) - n = Suc (nat (k + 1) - Suc n)" using Cons.prems by simp
    with Cons.IH [OF Cons.prems, of "Suc n"] False show ?thesis by simp
  qed
qed

lemma filter_idx_gt: "- 1 \<le> k \<Longrightarrow> filter_idx (\<lambda>idx. idx > k) xs = drop (nat (k + 1)) xs"
  using filter_enumerate_gt [of k 0 xs] by (simp add: filter_idx_def)

lemma fold_invoke:
  "fold (\<lambda>message. invoke this cb message) ms w =
     w\<lparr>calls := calls w @ map (\<lambda>m. (this, cb, m)) ms\<rparr>"
  by (induction ms arbitrary: w) (simp_all add: invoke_def)

lemma lastMessage_of_eq: "lastMessage_of msgs = (if msgs = [] then None else Some (last msgs))"
  by (simp add: lastMessage_of_def last_conv_nth)

lemma lastMessageId_of_eq:
  "lastMessageId_of msgs = (if msgs = [] then None else Some (id_msg (last msgs)))"
  by (simp add: lastMessageId_of_def lastMessage_of_eq)

text \<open>What the update path's replay calls, as a list.\<close>

lemma replay_existing_calls:
  "replay_existing strategy cb msgs lm ex w =
     w\<lparr>calls := calls w @
        (case strategy of
           FULL \<Rightarrow> map (\<lambda>m. (None, cb, m))
                     (drop (nat (findIndex (\<lambda>m. Some (id_msg m) = lastMessageId ex) msgs + 1)) msgs)
         | LATEST \<Rightarrow> [(None, cb, lm)]
         | IGNORE \<Rightarrow> [])\<rparr>"
  by (cases strategy)
     (simp_all add: replay_existing_def fold_invoke filter_idx_gt findIndex_ge invoke_def)

lemma replay_new_calls:
  "replay_new strategy cb msgs (lastMessage_of msgs) w =
     w\<lparr>calls := calls w @
        (case strategy of
           FULL \<Rightarrow> map (\<lambda>m. (None, cb, m)) msgs
         | LATEST \<Rightarrow> (if msgs = [] then [] else [(None, cb, last msgs)])
         | IGNORE \<Rightarrow> [])\<rparr>"
  by (cases strategy)
     (simp_all add: replay_new_def fold_invoke lastMessage_of_eq invoke_def)

subsection \<open>The two paths of \<open>subscribe\<close>\<close>

lemma subscribe_existing:
  assumes "maybeExisting_of w t (id_of (topic_heap w t) options) = Some r"
  shows "subscribe w t cb options =
    (r, w\<lparr>calls := calls w @
            (if truthy_num (lastMessageId (sub_heap w r)) \<and>
                lastMessageId (sub_heap w r) \<noteq> lastMessageId_of (messages (topic_heap w t)) \<and>
                messages (topic_heap w t) \<noteq> []
             then (case backlogStrategy_of options of
                     FULL \<Rightarrow> map (\<lambda>m. (None, cb, m))
                               (drop (nat (findIndex (\<lambda>m. Some (id_msg m) = lastMessageId (sub_heap w r))
                                            (messages (topic_heap w t)) + 1))
                                  (messages (topic_heap w t)))
                   | LATEST \<Rightarrow> [(None, cb, last (messages (topic_heap w t)))]
                   | IGNORE \<Rightarrow> [])
             else []),
          sub_heap := (sub_heap w)
            (r := (sub_heap w r)\<lparr>callback := cb,
                                  lastMessageId := lastMessageId_of (messages (topic_heap w t)),
                                  active := True\<rparr>)\<rparr>)"
  using assms
  by (cases "backlogStrategy_of options")
     (simp_all add: subscribe_def Let_def startActive_of_True replay_existing_calls upd_sub_def
      lastMessage_of_eq)

lemma subscribe_new:
  assumes "maybeExisting_of w t (id_of (topic_heap w t) options) = None"
  shows "subscribe w t cb options =
    (next_sref w,
     w\<lparr>calls := calls w @
          (case backlogStrategy_of options of
             FULL \<Rightarrow> map (\<lambda>m. (None, cb, m)) (messages (topic_heap w t))
           | LATEST \<Rightarrow> (if messages (topic_heap w t) = [] then []
                        else [(None, cb, last (messages (topic_heap w t)))])
           | IGNORE \<Rightarrow> []),
        sub_heap := (sub_heap w)
          (next_sref w := \<lparr>id_sub = id_of (topic_heap w t) options, topic = name (topic_heap w t),
                           lastMessageId = lastMessageId_of (messages (topic_heap w t)),
                           callback = cb, active = True\<rparr>),
        next_sref := Suc (next_sref w),
        topic_heap := (topic_heap w)
          (t := (topic_heap w t)\<lparr>subscriptions := subscriptions (topic_heap w t) @ [next_sref w],
                                  nextSubId := nextSubId (topic_heap w t) + 1\<rparr>)\<rparr>)"
  using assms
  by (cases "backlogStrategy_of options")
     (simp_all add: subscribe_def Let_def startActive_of_True replay_new_calls upd_topic_def)

subsection \<open>Eviction and delivery\<close>

lemma cleanLoop_returns: "0 \<le> k \<Longrightarrow> cleanLoop k ms = Some (drop (length ms - nat k) ms)"
proof (induction ms)
  case Nil
  then show ?case by (subst cleanLoop.simps) simp
next
  case (Cons m ms)
  show ?case
  proof (cases "int (length (m # ms)) > k")
    case True
    with Cons show ?thesis
      by (subst cleanLoop.simps) (simp add: Suc_diff_le nat_le_iff)
  next
    case False
    then show ?thesis by (subst cleanLoop.simps) simp
  qed
qed

lemma cleanLoop_Some_nonneg:
  assumes "cleanLoop k ms = Some y"
  shows "0 \<le> k"
proof (rule cleanLoop.raw_induct [where P = "\<lambda>k ms y. 0 \<le> k", OF _ assms])
  fix f :: "int \<Rightarrow> 'a list \<Rightarrow> 'a list option" and k ms y
  assume IH: "\<And>k ms y. f k ms = Some y \<Longrightarrow> 0 \<le> k"
    and step: "(if int (length ms) > k then f k (tl ms) else Some ms) = Some y"
  show "0 \<le> k"
  proof (cases "int (length ms) > k")
    case True
    with step have "f k (tl ms) = Some y" by simp
    then show ?thesis by (rule IH)
  next
    case False
    then show ?thesis by simp
  qed
qed

lemma cleanLoop_diverges: "k < 0 \<Longrightarrow> cleanLoop k ms = None"
  using cleanLoop_Some_nonneg [of k ms] by (cases "cleanLoop k ms") auto

text \<open>The log that \<open>cleanOldMessages\<close> leaves, for a bound that lets it return.\<close>

lemma cleanOldMessages_returns:
  assumes "- 1 \<le> maxLogSize (topic_heap w t)"
  shows "cleanOldMessages w t =
     Some (if maxLogSize (topic_heap w t) = - 1 then w
           else upd_topic w t (\<lambda>x. x\<lparr>messages :=
                  drop (length (messages (topic_heap w t)) - nat (maxLogSize (topic_heap w t)))
                    (messages (topic_heap w t))\<rparr>))"
proof (cases "maxLogSize (topic_heap w t) = - 1")
  case True
  then show ?thesis by (simp add: cleanOldMessages_def)
next
  case False
  with assms have "0 \<le> maxLogSize (topic_heap w t)" by arith
  with False show ?thesis
    by (simp add: cleanOldMessages_def cleanLoop_returns)
qed

lemma cleanOldMessages_diverges:
  "maxLogSize (topic_heap w t) < - 1 \<Longrightarrow> cleanOldMessages w t = None"
  by (simp add: cleanOldMessages_def cleanLoop_diverges)

lemma deliver_active [simp]: "active (sub_heap (deliver m r w) x) = active (sub_heap w x)"
  by (simp add: deliver_def upd_sub_def invoke_def)

lemma deliver_callback [simp]: "callback (sub_heap (deliver m r w) x) = callback (sub_heap w x)"
  by (simp add: deliver_def upd_sub_def invoke_def)

lemma fold_deliver_calls:
  "calls (fold (deliver m) rs w) =
     calls w @ map (\<lambda>r. (Some r, callback (sub_heap w r), m))
                (filter (\<lambda>r. active (sub_heap w r)) rs)"
proof (induction rs arbitrary: w)
  case Nil
  show ?case by simp
next
  case (Cons r rs)
  have "calls (deliver m r w) =
          calls w @ (if active (sub_heap w r) then [(Some r, callback (sub_heap w r), m)] else [])"
    by (simp add: deliver_def upd_sub_def invoke_def)
  with Cons.IH [of "deliver m r w"] show ?case by simp
qed

lemma fold_deliver_sub_heap:
  "sub_heap (fold (deliver m) rs w) x =
     (if x \<in> set rs \<and> active (sub_heap w x)
      then (sub_heap w x)\<lparr>lastMessageId := Some (id_msg m)\<rparr> else sub_heap w x)"
proof (induction rs arbitrary: w)
  case Nil
  show ?case by simp
next
  case (Cons r rs)
  have step: "sub_heap (deliver m r w) x =
      (if x = r \<and> active (sub_heap w x)
       then (sub_heap w x)\<lparr>lastMessageId := Some (id_msg m)\<rparr> else sub_heap w x)"
    by (auto simp: deliver_def upd_sub_def invoke_def)
  show ?case
  proof (cases "x = r")
    case True
    then show ?thesis
      unfolding fold_simps Cons.IH [of "deliver m r w"] deliver_active step by simp
  next
    case False
    then show ?thesis
      unfolding fold_simps Cons.IH [of "deliver m r w"] deliver_active step by simp
  qed
qed

lemma fold_deliver_frame:
  "topic_heap (fold (deliver m) rs w) = topic_heap w \<and>
   next_sref (fold (deliver m) rs w) = next_sref w \<and>
   next_tref (fold (deliver m) rs w) = next_tref w"
  by (induction rs arbitrary: w) (simp_all add: deliver_def upd_sub_def invoke_def)

subsection \<open>One \<open>sendMessage\<close>\<close>

lemma Topic_update_order:
  "x\<lparr>messages := a, nextMessageID := b\<rparr> = x\<lparr>nextMessageID := b, messages := a\<rparr>"
  by (cases x) simp

lemma sendMessage_Some:
  assumes "- 1 \<le> maxLogSize (topic_heap w t)"
  shows "sendMessage w t p now =
     Some (fold (deliver \<lparr>id_msg = nextMessageID (topic_heap w t), payload = p, timestamp = now\<rparr>)
             (subscriptions (topic_heap w t))
             (w\<lparr>topic_heap := (topic_heap w)
                  (t := (topic_heap w t)
                     \<lparr>nextMessageID := nextMessageID (topic_heap w t) + 1,
                      messages :=
                        (if maxLogSize (topic_heap w t) = - 1 then (\<lambda>l. l)
                         else drop (Suc (length (messages (topic_heap w t))) -
                                    nat (maxLogSize (topic_heap w t))))
                          (messages (topic_heap w t) @
                           [\<lparr>id_msg = nextMessageID (topic_heap w t), payload = p,
                             timestamp = now\<rparr>])\<rparr>)\<rparr>))"
proof (cases "maxLogSize (topic_heap w t) = - 1")
  case True
  then show ?thesis
    by (simp add: sendMessage_def Let_def cleanOldMessages_def upd_topic_def Topic_update_order)
next
  case False
  with assms show ?thesis
    by (simp add: sendMessage_def Let_def cleanOldMessages_returns upd_topic_def)
qed

lemma sendMessage_None:
  "maxLogSize (topic_heap w t) < - 1 \<Longrightarrow> sendMessage w t p now = None"
  by (simp add: sendMessage_def Let_def cleanOldMessages_diverges upd_topic_def)

text \<open>The effect of one \<open>sendMessage\<close> that returns, component by component.\<close>

lemma sendMessage_topic_heap:
  assumes "sendMessage w t p now = Some w'"
  shows "topic_heap w' =
     (topic_heap w)
       (t := (topic_heap w t)
          \<lparr>nextMessageID := nextMessageID (topic_heap w t) + 1,
           messages :=
             (if maxLogSize (topic_heap w t) = - 1 then (\<lambda>l. l)
              else drop (Suc (length (messages (topic_heap w t))) -
                         nat (maxLogSize (topic_heap w t))))
               (messages (topic_heap w t) @
                [\<lparr>id_msg = nextMessageID (topic_heap w t), payload = p, timestamp = now\<rparr>])\<rparr>)"
proof (cases "- 1 \<le> maxLogSize (topic_heap w t)")
  case True
  from sendMessage_Some [OF True, of p now] assms show ?thesis
    by (auto simp: fold_deliver_frame)
next
  case False
  then have "sendMessage w t p now = None" by (simp add: sendMessage_None)
  with assms show ?thesis by simp
qed

lemma sendMessage_calls:
  assumes "sendMessage w t p now = Some w'"
  shows "calls w' = calls w @
     map (\<lambda>r. (Some r, callback (sub_heap w r),
               \<lparr>id_msg = nextMessageID (topic_heap w t), payload = p, timestamp = now\<rparr>))
       (filter (\<lambda>r. active (sub_heap w r)) (subscriptions (topic_heap w t)))"
proof (cases "- 1 \<le> maxLogSize (topic_heap w t)")
  case True
  from sendMessage_Some [OF True, of p now] assms show ?thesis
    by (auto simp: fold_deliver_calls)
next
  case False
  then have "sendMessage w t p now = None" by (simp add: sendMessage_None)
  with assms show ?thesis by simp
qed

lemma sendMessage_sub_heap:
  assumes "sendMessage w t p now = Some w'"
  shows "sub_heap w' x =
     (if x \<in> set (subscriptions (topic_heap w t)) \<and> active (sub_heap w x)
      then (sub_heap w x)\<lparr>lastMessageId := Some (nextMessageID (topic_heap w t))\<rparr>
      else sub_heap w x)"
proof (cases "- 1 \<le> maxLogSize (topic_heap w t)")
  case True
  from sendMessage_Some [OF True, of p now] assms show ?thesis
    by (auto simp: fold_deliver_sub_heap)
next
  case False
  then have "sendMessage w t p now = None" by (simp add: sendMessage_None)
  with assms show ?thesis by simp
qed

lemma sendMessage_refs:
  assumes "sendMessage w t p now = Some w'"
  shows "next_sref w' = next_sref w \<and> next_tref w' = next_tref w"
proof (cases "- 1 \<le> maxLogSize (topic_heap w t)")
  case True
  from sendMessage_Some [OF True, of p now] assms show ?thesis
    by (auto simp: fold_deliver_frame)
next
  case False
  then have "sendMessage w t p now = None" by (simp add: sendMessage_None)
  with assms show ?thesis by simp
qed

lemma sendMessage_returns_iff:
  "(\<exists>w'. sendMessage w t p now = Some w') = (- 1 \<le> maxLogSize (topic_heap w t))"
proof (cases "- 1 \<le> maxLogSize (topic_heap w t)")
  case True
  with sendMessage_Some [OF True, of p now] show ?thesis by simp
next
  case False
  then show ?thesis by (simp add: sendMessage_None)
qed

subsection \<open>Sequences of \<open>sendMessage\<close>\<close>

lemma sendMessage_maxLogSize:
  "sendMessage w t p now = Some w' \<Longrightarrow> maxLogSize (topic_heap w' x) = maxLogSize (topic_heap w x)"
  by (drule sendMessage_topic_heap) simp

lemma sendMessage_subscriptions:
  "sendMessage w t p now = Some w' \<Longrightarrow>
     subscriptions (topic_heap w' x) = subscriptions (topic_heap w x)"
  by (drule sendMessage_topic_heap) simp

lemma sendMessages_returns:
  "\<forall>x\<in>set xs. - 1 \<le> maxLogSize (topic_heap w (fst x)) \<Longrightarrow> \<exists>w'. sendMessages w xs = Some w'"
proof (induction xs arbitrary: w)
  case Nil
  show ?case by simp
next
  case (Cons x xs)
  then have "- 1 \<le> maxLogSize (topic_heap w (fst x))" by simp
  then obtain w1 where w1: "sendMessage w (fst x) (fst (snd x)) (snd (snd x)) = Some w1"
    using sendMessage_returns_iff [of w "fst x"] by blast
  have "\<forall>y\<in>set xs. - 1 \<le> maxLogSize (topic_heap w1 (fst y))"
    using Cons.prems sendMessage_maxLogSize [OF w1] by simp
  from Cons.IH [OF this] w1 show ?case by simp
qed

text \<open>One message on an unbounded topic, and any number of them.\<close>

lemma sendMessage_ids_unbounded:
  assumes "maxLogSize (topic_heap w t) = - 1"
  shows "\<exists>w'. sendMessage w t p now = Some w' \<and> maxLogSize (topic_heap w' t) = - 1 \<and>
     map id_msg (messages (topic_heap w' t)) =
       map id_msg (messages (topic_heap w t)) @ [nextMessageID (topic_heap w t)] \<and>
     nextMessageID (topic_heap w' t) = nextMessageID (topic_heap w t) + 1"
proof -
  from assms have "- 1 \<le> maxLogSize (topic_heap w t)" by simp
  then obtain w' where w': "sendMessage w t p now = Some w'"
    using sendMessage_returns_iff [of w t p now] by blast
  from sendMessage_topic_heap [OF w'] assms w' show ?thesis by simp
qed

lemma sendMessages_ids_unbounded:
  assumes "maxLogSize (topic_heap w t) = - 1" and "\<forall>x\<in>set xs. fst x = t"
  shows "\<exists>w'. sendMessages w xs = Some w' \<and> maxLogSize (topic_heap w' t) = - 1 \<and>
     map id_msg (messages (topic_heap w' t)) =
       map id_msg (messages (topic_heap w t)) @
       map (\<lambda>i. nextMessageID (topic_heap w t) + int i) [0..<length xs] \<and>
     nextMessageID (topic_heap w' t) = nextMessageID (topic_heap w t) + int (length xs)"
  using assms
proof (induction xs arbitrary: w)
  case Nil
  then show ?case by simp
next
  case (Cons x xs)
  from Cons.prems have x: "fst x = t" and xs: "\<forall>y\<in>set xs. fst y = t" by simp_all
  from sendMessage_ids_unbounded [OF Cons.prems(1), of "fst (snd x)" "snd (snd x)"]
  obtain w1 where w1: "sendMessage w t (fst (snd x)) (snd (snd x)) = Some w1"
    and m1: "maxLogSize (topic_heap w1 t) = - 1"
    and i1: "map id_msg (messages (topic_heap w1 t)) =
               map id_msg (messages (topic_heap w t)) @ [nextMessageID (topic_heap w t)]"
    and n1: "nextMessageID (topic_heap w1 t) = nextMessageID (topic_heap w t) + 1"
    by blast
  from Cons.IH [OF m1 xs] obtain w' where w': "sendMessages w1 xs = Some w'"
    and m': "maxLogSize (topic_heap w' t) = - 1"
    and i': "map id_msg (messages (topic_heap w' t)) =
               map id_msg (messages (topic_heap w1 t)) @
               map (\<lambda>i. nextMessageID (topic_heap w1 t) + int i) [0..<length xs]"
    and n': "nextMessageID (topic_heap w' t) = nextMessageID (topic_heap w1 t) + int (length xs)"
    by blast
  have "sendMessages w (x # xs) = Some w'" using w1 w' x by simp
  moreover have "map id_msg (messages (topic_heap w' t)) =
       map id_msg (messages (topic_heap w t)) @
       map (\<lambda>i. nextMessageID (topic_heap w t) + int i) [0..<length (x # xs)]"
    unfolding i' i1 n1 by (simp add: map_upt_Suc del: upt_Suc add.commute add.left_commute)
  moreover have "nextMessageID (topic_heap w' t) =
       nextMessageID (topic_heap w t) + int (length (x # xs))"
    unfolding n' n1 by simp
  ultimately show ?case using m' by blast
qed

text \<open>The same for a topic whose bound is \<open>k \<ge> 0\<close>: the log is the last \<open>k\<close> of the ids so far.\<close>

lemma drop_last_k_step:
  "drop (Suc (length (drop (b - k) (map int [0..<b]))) - k)
        (drop (b - k) (map int [0..<b]) @ [int b]) =
   drop (Suc b - k) (map int [0..<Suc b])"
proof (cases "b \<le> k")
  case True
  then show ?thesis by simp
next
  case False
  then have "Suc b - k = Suc (b - k)" by simp
  with False show ?thesis by (simp add: drop_Suc tl_drop)
qed

lemma sendMessage_ids_bounded:
  assumes "maxLogSize (topic_heap w t) = int k"
  shows "\<exists>w'. sendMessage w t p now = Some w' \<and> maxLogSize (topic_heap w' t) = int k \<and>
     map id_msg (messages (topic_heap w' t)) =
       drop (Suc (length (messages (topic_heap w t))) - k)
         (map id_msg (messages (topic_heap w t)) @ [nextMessageID (topic_heap w t)]) \<and>
     nextMessageID (topic_heap w' t) = nextMessageID (topic_heap w t) + 1"
proof -
  from assms have "- 1 \<le> maxLogSize (topic_heap w t)" by simp
  then obtain w' where w': "sendMessage w t p now = Some w'"
    using sendMessage_returns_iff [of w t p now] by blast
  have k: "int k \<noteq> - 1" by simp
  have "map id_msg (drop n (ms @ [m])) = drop n (map id_msg ms @ [id_msg m])"
    for n and ms :: "'a Message list" and m
    using drop_map [of n id_msg "ms @ [m]"] by (simp del: drop_append)
  with sendMessage_topic_heap [OF w'] assms w' k show ?thesis
    by (simp del: drop_append)
qed

lemma sendMessages_ids_bounded:
  assumes "maxLogSize (topic_heap w t) = int k" and "\<forall>x\<in>set xs. fst x = t"
    and "map id_msg (messages (topic_heap w t)) = drop (b - k) (map int [0..<b])"
    and "nextMessageID (topic_heap w t) = int b"
  shows "\<exists>w'. sendMessages w xs = Some w' \<and> maxLogSize (topic_heap w' t) = int k \<and>
     map id_msg (messages (topic_heap w' t)) =
       drop (b + length xs - k) (map int [0..<b + length xs]) \<and>
     nextMessageID (topic_heap w' t) = int (b + length xs)"
  using assms
proof (induction xs arbitrary: w b)
  case Nil
  then show ?case by simp
next
  case (Cons x xs)
  from Cons.prems have x: "fst x = t" and xs: "\<forall>y\<in>set xs. fst y = t" by simp_all
  from sendMessage_ids_bounded [OF Cons.prems(1), of "fst (snd x)" "snd (snd x)"]
  obtain w1 where w1: "sendMessage w t (fst (snd x)) (snd (snd x)) = Some w1"
    and m1: "maxLogSize (topic_heap w1 t) = int k"
    and i1: "map id_msg (messages (topic_heap w1 t)) =
               drop (Suc (length (messages (topic_heap w t))) - k)
                 (map id_msg (messages (topic_heap w t)) @ [nextMessageID (topic_heap w t)])"
    and n1: "nextMessageID (topic_heap w1 t) = nextMessageID (topic_heap w t) + 1"
    by blast
  have len: "length (messages (topic_heap w t)) = length (drop (b - k) (map int [0..<b]))"
    using Cons.prems(3) by (metis length_map)
  have i1': "map id_msg (messages (topic_heap w1 t)) = drop (Suc b - k) (map int [0..<Suc b])"
    unfolding i1 len Cons.prems(3) Cons.prems(4) by (rule drop_last_k_step)
  have n1': "nextMessageID (topic_heap w1 t) = int (Suc b)"
    unfolding n1 Cons.prems(4) by simp
  from Cons.IH [OF m1 xs i1' n1'] obtain w' where w': "sendMessages w1 xs = Some w'"
    and m': "maxLogSize (topic_heap w' t) = int k"
    and i': "map id_msg (messages (topic_heap w' t)) =
               drop (Suc b + length xs - k) (map int [0..<Suc b + length xs])"
    and n': "nextMessageID (topic_heap w' t) = int (Suc b + length xs)"
    by blast
  have "sendMessages w (x # xs) = Some w'" using w1 w' x by simp
  with m' i' n' show ?case by simp
qed

section \<open>The log of a topic\<close>

text \<open>The topic that \<open>getTopic\<close> makes for a name the bus does not have yet.\<close>

lemma getTopic_new:
  assumes "find (\<lambda>x. name (topic_heap w x) = nm) (topics bus) = None"
  shows "topic_heap (snd (snd (getTopic w bus nm mls))) (fst (getTopic w bus nm mls)) =
     \<lparr>name = nm, messages = [], subscriptions = [],
      maxLogSize = (if truthy_num mls then the mls else - 1), nextSubId = 0, nextMessageID = 0\<rparr>"
  using assms by (simp add: getTopic_def Let_def)

text \<open>
  Claim C6. On a topic that \<open>getTopic\<close> has just made with \<open>maxLogSize\<close> left out or
  \<open>-1\<close>, every sequence of \<open>n\<close> calls of \<open>sendMessage\<close> returns, and after it the log has
  \<open>n\<close> messages whose ids are \<open>0, ..., n - 1\<close> in this order.
\<close>

theorem unbounded_log_ids:
  assumes "find (\<lambda>x. name (topic_heap w x) = nm) (topics bus) = None"
    and "mls = None \<or> mls = Some (- 1)"
    and "\<forall>x\<in>set xs. fst x = fst (getTopic w bus nm mls)"
  shows "\<exists>w'. sendMessages (snd (snd (getTopic w bus nm mls))) xs = Some w' \<and>
     length (messages (topic_heap w' (fst (getTopic w bus nm mls)))) = length xs \<and>
     map id_msg (messages (topic_heap w' (fst (getTopic w bus nm mls)))) =
       map int [0..<length xs]"
proof -
  let ?t = "fst (getTopic w bus nm mls)" and ?w = "snd (snd (getTopic w bus nm mls))"
  from assms(2) have m: "(if truthy_num mls then the mls else - 1) = - 1"
    by (auto simp: truthy_num_def)
  have tp: "topic_heap ?w ?t =
     \<lparr>name = nm, messages = [], subscriptions = [], maxLogSize = - 1, nextSubId = 0,
      nextMessageID = 0\<rparr>"
    using getTopic_new [OF assms(1), of mls] m by simp
  then have unb: "maxLogSize (topic_heap ?w ?t) = - 1" by simp
  from sendMessages_ids_unbounded [OF unb assms(3)] obtain w'
    where w': "sendMessages ?w xs = Some w'"
      and ids: "map id_msg (messages (topic_heap w' ?t)) =
          map id_msg (messages (topic_heap ?w ?t)) @
          map (\<lambda>i. nextMessageID (topic_heap ?w ?t) + int i) [0..<length xs]"
    by blast
  from ids have ids': "map id_msg (messages (topic_heap w' ?t)) = map int [0..<length xs]"
    unfolding tp by simp
  from ids' have "length (messages (topic_heap w' ?t)) = length xs"
    by (metis length_map length_upt diff_zero)
  with w' ids' show ?thesis by blast
qed

theorem unbounded_log_ids_witness:
  "find (\<lambda>x. name (topic_heap (init_World :: nat World) x) = ''demo'') (topics \<lparr>topics = []\<rparr>) = None \<and>
   list_all (\<lambda>x. fst x = fst (getTopic (init_World :: nat World) \<lparr>topics = []\<rparr> ''demo'' None))
     [(0, 10, 100), (0, 11, 101), (0, 12, 102 :: nat)] \<and>
   (\<exists>w'. sendMessages (fresh_topic None) [(0, 10, 100), (0, 11, 101), (0, 12, 102)] = Some w' \<and>
      length (messages (topic_heap w' 0)) = 3 \<and>
      map id_msg (messages (topic_heap w' 0)) = [0, 1, 2])"
proof -
  have h1: "find (\<lambda>x. name (topic_heap (init_World :: nat World) x) = ''demo'')
              (topics \<lparr>topics = []\<rparr>) = None"
    by simp
  have t: "fst (getTopic (init_World :: nat World) \<lparr>topics = []\<rparr> ''demo'' None) = 0"
    by (simp add: getTopic_def init_World_def)
  have h3: "\<forall>x\<in>set [(0, 10, 100), (0, 11, 101), (0, 12, 102 :: nat)].
      fst x = fst (getTopic (init_World :: nat World) \<lparr>topics = []\<rparr> ''demo'' None)"
    unfolding t by simp
  have u: "map int [0..<length [(0::nat, 10::nat, 100::nat), (0, 11, 101), (0, 12, 102)]] = [0, 1, 2]"
    by (simp add: upt_rec)
  have h2: "(None :: int option) = None \<or> (None :: int option) = Some (- 1)"
    by simp
  from unbounded_log_ids [OF h1 h2 h3] h1 h3 show ?thesis
    unfolding t u fresh_topic_def by (simp add: numeral_3_eq_3)
qed

text \<open>
  For a bound \<open>k > 0\<close> given to \<open>getTopic\<close>, \<open>n\<close> calls of \<open>sendMessage\<close> leave
  \<open>min n k\<close> messages, with the \<open>k\<close> most recent ids.
\<close>

lemma bounded_log_ids:
  assumes "find (\<lambda>x. name (topic_heap w x) = nm) (topics bus) = None"
    and "0 < k"
    and "\<forall>x\<in>set xs. fst x = fst (getTopic w bus nm (Some (int k)))"
  shows "\<exists>w'. sendMessages (snd (snd (getTopic w bus nm (Some (int k))))) xs = Some w' \<and>
     length (messages (topic_heap w' (fst (getTopic w bus nm (Some (int k)))))) = min (length xs) k \<and>
     map id_msg (messages (topic_heap w' (fst (getTopic w bus nm (Some (int k)))))) =
       map int [length xs - k..<length xs]"
proof -
  let ?t = "fst (getTopic w bus nm (Some (int k)))"
  let ?w = "snd (snd (getTopic w bus nm (Some (int k))))"
  from assms(2) have m: "(if truthy_num (Some (int k)) then the (Some (int k)) else - 1) = int k"
    by (simp add: truthy_num_def)
  have tp: "topic_heap ?w ?t =
     \<lparr>name = nm, messages = [], subscriptions = [], maxLogSize = int k, nextSubId = 0,
      nextMessageID = 0\<rparr>"
    using getTopic_new [OF assms(1), of "Some (int k)"] m by simp
  have a: "maxLogSize (topic_heap ?w ?t) = int k"
    and b: "map id_msg (messages (topic_heap ?w ?t)) = drop (0 - k) (map int [0..<0])"
    and c: "nextMessageID (topic_heap ?w ?t) = int 0"
    unfolding tp by simp_all
  from sendMessages_ids_bounded [OF a assms(3) b c] obtain w'
    where w': "sendMessages ?w xs = Some w'"
      and ids: "map id_msg (messages (topic_heap w' ?t)) =
          drop (0 + length xs - k) (map int [0..<0 + length xs])"
    by blast
  from ids have ids': "map id_msg (messages (topic_heap w' ?t)) = map int [length xs - k..<length xs]"
    by (simp add: drop_map)
  from ids' have "length (messages (topic_heap w' ?t)) = min (length xs) k"
    by (metis length_map length_upt diff_diff_cancel min.commute min_def diff_is_0_eq' diff_zero nat_le_linear)
  with w' ids' show ?thesis by blast
qed

text \<open>
  Claim C3. The claim includes the bound \<open>k = 0\<close>, for which the log should stay empty.
  \<open>getTopic\<close> computes \<open>maxLogSize || -1\<close>, and \<open>0\<close> is falsy: the topic made with the bound
  \<open>0\<close> has \<open>maxLogSize = -1\<close>, and after two messages its log holds both.
\<close>

theorem zero_maxLogSize_is_unbounded:
  "maxLogSize (topic_heap (fresh_topic (Some 0)) 0) = - 1 \<and>
   map id_msg (messages (topic_heap
      (the (sendMessages (fresh_topic (Some 0)) [(0, 10, 100), (0, 11, 101)])) 0)) = [0, 1]"
  by code_simp

section \<open>\<open>sendMessage\<close>: the fan-out\<close>

text \<open>Among the calls made for a list of distinct subscriptions, those with a given \<open>this\<close>.\<close>

lemma count_calls_of:
  assumes "distinct rs" and "r \<in> set rs"
  shows "length (filter (\<lambda>c. fst c = Some r) (map (\<lambda>x. (Some x, f x, m)) (filter P rs))) =
     (if P r then 1 else 0)"
proof -
  have "filter (\<lambda>c. fst c = Some r) (map (\<lambda>x. (Some x, f x, m)) (filter P rs)) =
        map (\<lambda>x. (Some x, f x, m)) (filter (\<lambda>x. x = r \<and> P x) rs)"
    by (induction rs) auto
  moreover have "filter (\<lambda>x. x = r \<and> P x) rs = (if P r then filter (\<lambda>x. x = r) rs else [])"
    by (induction rs) auto
  moreover have "filter (\<lambda>x. x = r) rs = [r]"
    using assms by (induction rs) (auto simp: filter_empty_conv)
  ultimately show ?thesis by simp
qed

text \<open>
  Claim C4, amended. On a topic whose \<open>maxLogSize\<close> is \<open>-1\<close> or not negative, \<open>sendMessage\<close>
  returns. It appends the new message (its id is \<open>nextMessageID\<close>, which it increments) and
  evicts from the front down to the bound. It then visits the subscriptions in the order
  of the topic's list: the calls it adds are, in that order, one call of the callback of each
  active subscription, on the new message with the subscription as \<open>this\<close>. Each active
  subscription of the list gets the new id as its cursor, and every other subscription is
  left as it was. When the list has no reference twice, which is so in every world of a
  run (\<open>run_distinct_subscriptions\<close>), an active subscription is called exactly once and an
  inactive one not at all.
\<close>

theorem sendMessage_fan_out:
  assumes "- 1 \<le> maxLogSize (topic_heap w t)"
  shows "\<exists>w'. sendMessage w t p now = Some w' \<and>
     topic_heap w' =
       (topic_heap w)
         (t := (topic_heap w t)
            \<lparr>nextMessageID := nextMessageID (topic_heap w t) + 1,
             messages :=
               (if maxLogSize (topic_heap w t) = - 1 then (\<lambda>l. l)
                else drop (Suc (length (messages (topic_heap w t))) -
                           nat (maxLogSize (topic_heap w t))))
                 (messages (topic_heap w t) @
                  [\<lparr>id_msg = nextMessageID (topic_heap w t), payload = p, timestamp = now\<rparr>])\<rparr>) \<and>
     calls w' = calls w @
       map (\<lambda>r. (Some r, callback (sub_heap w r),
                 \<lparr>id_msg = nextMessageID (topic_heap w t), payload = p, timestamp = now\<rparr>))
         (filter (\<lambda>r. active (sub_heap w r)) (subscriptions (topic_heap w t))) \<and>
     (\<forall>r. sub_heap w' r =
        (if r \<in> set (subscriptions (topic_heap w t)) \<and> active (sub_heap w r)
         then (sub_heap w r)\<lparr>lastMessageId := Some (nextMessageID (topic_heap w t))\<rparr>
         else sub_heap w r)) \<and>
     (distinct (subscriptions (topic_heap w t)) \<longrightarrow>
        (\<forall>r\<in>set (subscriptions (topic_heap w t)).
           length (filter (\<lambda>c. fst c = Some r) (drop (length (calls w)) (calls w'))) =
             (if active (sub_heap w r) then 1 else 0)))"
proof -
  from assms obtain w' where w': "sendMessage w t p now = Some w'"
    using sendMessage_returns_iff [of w t p now] by blast
  note c = sendMessage_calls [OF w']
  have d: "drop (length (calls w)) (calls w') =
       map (\<lambda>r. (Some r, callback (sub_heap w r),
                 \<lparr>id_msg = nextMessageID (topic_heap w t), payload = p, timestamp = now\<rparr>))
         (filter (\<lambda>r. active (sub_heap w r)) (subscriptions (topic_heap w t)))"
    unfolding c by simp
  have "distinct (subscriptions (topic_heap w t)) \<longrightarrow>
        (\<forall>r\<in>set (subscriptions (topic_heap w t)).
           length (filter (\<lambda>c. fst c = Some r) (drop (length (calls w)) (calls w'))) =
             (if active (sub_heap w r) then 1 else 0))"
  proof (intro impI ballI)
    fix r
    assume dist: "distinct (subscriptions (topic_heap w t))"
      and r: "r \<in> set (subscriptions (topic_heap w t))"
    show "length (filter (\<lambda>c. fst c = Some r) (drop (length (calls w)) (calls w'))) =
             (if active (sub_heap w r) then 1 else 0)"
      unfolding d by (rule count_calls_of [OF dist r])
  qed
  with w' sendMessage_topic_heap [OF w'] c sendMessage_sub_heap [OF w'] show ?thesis
    by blast
qed

theorem sendMessage_fan_out_witness:
  "- 1 \<le> maxLogSize (topic_heap run_two_subs 0) \<and>
   (\<exists>w'. sendMessage run_two_subs 0 10 100 = Some w' \<and>
      messages (topic_heap w' 0) = [\<lparr>id_msg = 0, payload = 10, timestamp = 100\<rparr>] \<and>
      calls w' = [(Some 1, 2, \<lparr>id_msg = 0, payload = 10, timestamp = 100\<rparr>)] \<and>
      sub_heap w' 0 = sub_heap run_two_subs 0 \<and>
      active (sub_heap w' 0) = False \<and>
      lastMessageId (sub_heap w' 0) = None \<and>
      lastMessageId (sub_heap w' 1) = Some 0 \<and>
      distinct (subscriptions (topic_heap run_two_subs 0)) \<and>
      length (filter (\<lambda>c. fst c = Some 1) (drop (length (calls run_two_subs)) (calls w'))) = 1 \<and>
      length (filter (\<lambda>c. fst c = Some 0) (drop (length (calls run_two_subs)) (calls w'))) = 0)"
proof -
  have h: "- 1 \<le> maxLogSize (topic_heap run_two_subs 0)" by code_simp
  from sendMessage_fan_out [OF h, of 10 100] obtain w'
    where s: "sendMessage run_two_subs 0 10 100 = Some w'"
      and t: "topic_heap w' =
       (topic_heap run_two_subs)
         (0 := (topic_heap run_two_subs 0)
            \<lparr>nextMessageID := nextMessageID (topic_heap run_two_subs 0) + 1,
             messages :=
               (if maxLogSize (topic_heap run_two_subs 0) = - 1 then (\<lambda>l. l)
                else drop (Suc (length (messages (topic_heap run_two_subs 0))) -
                           nat (maxLogSize (topic_heap run_two_subs 0))))
                 (messages (topic_heap run_two_subs 0) @
                  [\<lparr>id_msg = nextMessageID (topic_heap run_two_subs 0), payload = 10,
                    timestamp = 100\<rparr>])\<rparr>)"
      and c: "calls w' = calls run_two_subs @
       map (\<lambda>r. (Some r, callback (sub_heap run_two_subs r),
                 \<lparr>id_msg = nextMessageID (topic_heap run_two_subs 0), payload = 10,
                  timestamp = 100\<rparr>))
         (filter (\<lambda>r. active (sub_heap run_two_subs r)) (subscriptions (topic_heap run_two_subs 0)))"
      and u: "\<forall>r. sub_heap w' r =
        (if r \<in> set (subscriptions (topic_heap run_two_subs 0)) \<and> active (sub_heap run_two_subs r)
         then (sub_heap run_two_subs r)\<lparr>lastMessageId := Some (nextMessageID (topic_heap run_two_subs 0))\<rparr>
         else sub_heap run_two_subs r)"
      and k: "distinct (subscriptions (topic_heap run_two_subs 0)) \<longrightarrow>
        (\<forall>r\<in>set (subscriptions (topic_heap run_two_subs 0)).
           length (filter (\<lambda>c. fst c = Some r) (drop (length (calls run_two_subs)) (calls w'))) =
             (if active (sub_heap run_two_subs r) then 1 else 0))"
    by blast
  have dist: "distinct (subscriptions (topic_heap run_two_subs 0))" by code_simp
  have m0: "0 \<in> set (subscriptions (topic_heap run_two_subs 0))"
    and m1: "1 \<in> set (subscriptions (topic_heap run_two_subs 0))"
    by code_simp+
  have a0: "active (sub_heap run_two_subs 0) = False"
    and a1: "active (sub_heap run_two_subs 1) = True"
    by code_simp+
  from k [rule_format, OF dist m1] a1
  have e6: "length (filter (\<lambda>c. fst c = Some 1)
              (drop (length (calls run_two_subs)) (calls w'))) = 1"
    by simp
  from k [rule_format, OF dist m0] a0
  have e7: "length (filter (\<lambda>c. fst c = Some 0)
              (drop (length (calls run_two_subs)) (calls w'))) = 0"
    by simp
  have e1: "messages (topic_heap w' 0) = [\<lparr>id_msg = 0, payload = 10, timestamp = 100\<rparr>]"
    unfolding t by code_simp
  have e2: "calls w' = [(Some 1, 2, \<lparr>id_msg = 0, payload = 10, timestamp = 100\<rparr>)]"
    unfolding c by code_simp
  have e3: "sub_heap w' 0 = sub_heap run_two_subs 0"
    unfolding u [rule_format] by code_simp
  have e4: "active (sub_heap w' 0) = False" "lastMessageId (sub_heap w' 0) = None"
    unfolding e3 by code_simp+
  have e5: "lastMessageId (sub_heap w' 1) = Some 0"
    unfolding u [rule_format] by code_simp
  from h s e1 e2 e3 e4 e5 e6 e7 dist show ?thesis by blast
qed

text \<open>
  Claim C4 as stated speaks of every call. \<open>getTopic\<close> accepts the bound \<open>-2\<close>; with it the
  loop of \<open>cleanOldMessages\<close> has a condition that stays true on the empty array, and
  \<open>sendMessage\<close> does not return: no subscription is visited.
\<close>

theorem send_with_negative_bound_does_not_return:
  "maxLogSize (topic_heap (fresh_topic (Some (- 2))) 0) = - 2 \<and>
   sendMessage (fresh_topic (Some (- 2))) 0 10 100 = None"
proof -
  have m: "maxLogSize (topic_heap (fresh_topic (Some (- 2))) 0) = - 2" by code_simp
  then have "maxLogSize (topic_heap (fresh_topic (Some (- 2))) 0) < - 1" by simp
  from sendMessage_None [OF this] m show ?thesis by simp
qed

section \<open>\<open>unsubscribe\<close>\<close>

text \<open>An inactive subscription is not called by \<open>sendMessage\<close> and keeps its state.\<close>

lemma sendMessage_inactive:
  assumes "\<not> active (sub_heap w s)" and "sendMessage w t p now = Some w'"
  shows "sub_heap w' s = sub_heap w s \<and>
     filter (\<lambda>c. fst c = Some s) (calls w') = filter (\<lambda>c. fst c = Some s) (calls w)"
proof -
  have "filter (\<lambda>c. fst c = Some s)
          (map (\<lambda>r. (Some r, f r, m)) (filter (\<lambda>r. active (sub_heap w r)) rs)) = []"
    for f :: "nat \<Rightarrow> nat" and m :: "'a Message" and rs
    using assms(1) by (induction rs) auto
  with sendMessage_calls [OF assms(2)] sendMessage_sub_heap [OF assms(2), of s] assms(1)
  show ?thesis by simp
qed

lemma sendMessages_inactive:
  assumes "\<not> active (sub_heap w s)" and "sendMessages w xs = Some w'"
  shows "sub_heap w' s = sub_heap w s \<and>
     filter (\<lambda>c. fst c = Some s) (calls w') = filter (\<lambda>c. fst c = Some s) (calls w)"
  using assms
proof (induction xs arbitrary: w)
  case Nil
  then show ?case by simp
next
  case (Cons x xs)
  from Cons.prems(2) obtain w1
    where w1: "sendMessage w (fst x) (fst (snd x)) (snd (snd x)) = Some w1"
      and rest: "sendMessages w1 xs = Some w'"
    by (auto split: option.splits)
  from sendMessage_inactive [OF Cons.prems(1) w1]
  have a: "sub_heap w1 s = sub_heap w s"
    and b: "filter (\<lambda>c. fst c = Some s) (calls w1) = filter (\<lambda>c. fst c = Some s) (calls w)"
    by simp_all
  from a Cons.prems(1) have "\<not> active (sub_heap w1 s)" by simp
  from Cons.IH [OF this rest] a b show ?case by simp
qed

text \<open>
  Claim C8. \<open>unsubscribe\<close> sets \<open>active\<close> of the subscription to \<open>false\<close> and changes nothing
  else: the other fields of the subscription (its callback and cursor among them), every
  other subscription, the topics with their subscription lists and the calls made so far
  are the same, and a second \<open>unsubscribe\<close> changes nothing. After it, every sequence of
  \<open>sendMessage\<close> calls that returns leaves the subscription as it is (its cursor too) and
  adds no call made through it; and the sequence does return when the topics it sends on
  have a \<open>maxLogSize\<close> of \<open>-1\<close> or more.
\<close>

theorem unsubscribe_only_deactivates:
  "sub_heap (unsubscribe w s) = (sub_heap w)(s := (sub_heap w s)\<lparr>active := False\<rparr>) \<and>
   topic_heap (unsubscribe w s) = topic_heap w \<and>
   calls (unsubscribe w s) = calls w \<and>
   next_sref (unsubscribe w s) = next_sref w \<and>
   next_tref (unsubscribe w s) = next_tref w \<and>
   unsubscribe (unsubscribe w s) s = unsubscribe w s \<and>
   (sendMessages (unsubscribe w s) xs = Some w' \<longrightarrow>
      sub_heap w' s = (sub_heap w s)\<lparr>active := False\<rparr> \<and>
      filter (\<lambda>c. fst c = Some s) (calls w') = filter (\<lambda>c. fst c = Some s) (calls w)) \<and>
   ((\<forall>x\<in>set xs. - 1 \<le> maxLogSize (topic_heap w (fst x))) \<longrightarrow>
      (\<exists>w''. sendMessages (unsubscribe w s) xs = Some w''))"
proof -
  have frame: "sub_heap (unsubscribe w s) = (sub_heap w)(s := (sub_heap w s)\<lparr>active := False\<rparr>)"
    "topic_heap (unsubscribe w s) = topic_heap w" "calls (unsubscribe w s) = calls w"
    "next_sref (unsubscribe w s) = next_sref w" "next_tref (unsubscribe w s) = next_tref w"
    by (simp_all add: unsubscribe_def upd_sub_def)
  have idem: "unsubscribe (unsubscribe w s) s = unsubscribe w s"
    by (simp add: unsubscribe_def upd_sub_def)
  have later: "sub_heap w' s = (sub_heap w s)\<lparr>active := False\<rparr> \<and>
      filter (\<lambda>c. fst c = Some s) (calls w') = filter (\<lambda>c. fst c = Some s) (calls w)"
    if run: "sendMessages (unsubscribe w s) xs = Some w'"
  proof -
    have "\<not> active (sub_heap (unsubscribe w s) s)" by (simp add: frame)
    from sendMessages_inactive [OF this run] show ?thesis by (simp add: frame)
  qed
  have returns: "\<exists>w''. sendMessages (unsubscribe w s) xs = Some w''"
    if "\<forall>x\<in>set xs. - 1 \<le> maxLogSize (topic_heap w (fst x))"
    using that sendMessages_returns [of xs "unsubscribe w s"] by (simp add: frame)
  from frame idem later returns show ?thesis by blast
qed

theorem unsubscribe_only_deactivates_witness:
  "sendMessages (unsubscribe run_four 0)
     [(0, 14, 104), (0, 15, 105), (0, 16, 106), (0, 17, 107)] = Some run_test \<and>
   list_all (\<lambda>x. - 1 \<le> maxLogSize (topic_heap run_four (fst x)))
     [(0, 14, 104), (0, 15, 105), (0, 16, 106), (0, 17, 107)] \<and>
   sub_heap run_four 0 =
     \<lparr>id_sub = 0, topic = ''demo'', lastMessageId = Some 3, callback = 1, active = True\<rparr> \<and>
   sub_heap run_test 0 =
     \<lparr>id_sub = 0, topic = ''demo'', lastMessageId = Some 3, callback = 1, active = False\<rparr> \<and>
   length (filter (\<lambda>c. fst c = Some 0) (calls run_test)) = 4 \<and>
   length (filter (\<lambda>c. fst c = Some 0) (calls run_four)) = 4 \<and>
   map id_msg (messages (topic_heap run_test 0)) = [0, 1, 2, 3, 4, 5, 6, 7]"
proof -
  let ?xs = "[(0, 14, 104), (0, 15, 105), (0, 16, 106), (0, 17, 107)] :: (nat \<times> nat \<times> nat) list"
  note inst = unsubscribe_only_deactivates [of run_four 0 ?xs run_test]
  have h2: "\<forall>x\<in>set ?xs. - 1 \<le> maxLogSize (topic_heap run_four (fst x))" by code_simp
  with inst obtain w'' where "sendMessages (unsubscribe run_four 0) ?xs = Some w''" by blast
  then have h1: "sendMessages (unsubscribe run_four 0) ?xs = Some run_test"
    by (simp add: run_test_def)
  from inst h1 have c1: "sub_heap run_test 0 = (sub_heap run_four 0)\<lparr>active := False\<rparr>"
    and c2: "filter (\<lambda>c. fst c = Some 0) (calls run_test) =
             filter (\<lambda>c. fst c = Some 0) (calls run_four)"
    by blast+
  have e1: "sub_heap run_four 0 =
     \<lparr>id_sub = 0, topic = ''demo'', lastMessageId = Some 3, callback = 1, active = True\<rparr>"
    by code_simp
  have e2: "length (filter (\<lambda>c. fst c = Some 0) (calls run_four)) = 4" by code_simp
  have e3: "map id_msg (messages (topic_heap run_test 0)) = [0, 1, 2, 3, 4, 5, 6, 7]"
    by code_simp
  have h2': "list_all (\<lambda>x. - 1 \<le> maxLogSize (topic_heap run_four (fst x))) ?xs"
    using h2 by (simp add: list_all_iff)
  from h1 h2' e1 e2 e3 c1 c2 show ?thesis by simp
qed

section \<open>\<open>subscribe\<close>: the creation path\<close>

text \<open>
  Claim C5. When the topic has no subscription with the effective id, \<open>subscribe\<close> calls the
  callback according to the strategy (\<open>full\<close> when the options give none): not at all for
  \<open>ignore\<close>; once, on the newest message, for \<open>latest\<close> when the log is not empty, and not at
  all when it is; once for every message of the log, oldest first, for \<open>full\<close>. The new
  subscription is appended to the topic's list, and its cursor is the id of the newest
  message, or \<open>null\<close> for an empty log.
\<close>

theorem subscribe_creation_replay:
  assumes "maybeExisting_of w t (id_of (topic_heap w t) options) = None"
  shows "calls (snd (subscribe w t cb options)) = calls w @
       (case backlogStrategy_of options of
          IGNORE \<Rightarrow> []
        | LATEST \<Rightarrow> (if messages (topic_heap w t) = [] then []
                     else [(None, cb, last (messages (topic_heap w t)))])
        | FULL \<Rightarrow> map (\<lambda>m. (None, cb, m)) (messages (topic_heap w t))) \<and>
     lastMessageId (sub_heap (snd (subscribe w t cb options)) (fst (subscribe w t cb options))) =
       (if messages (topic_heap w t) = [] then None
        else Some (id_msg (last (messages (topic_heap w t))))) \<and>
     subscriptions (topic_heap (snd (subscribe w t cb options)) t) =
       subscriptions (topic_heap w t) @ [fst (subscribe w t cb options)]"
  by (cases "backlogStrategy_of options")
     (simp_all add: subscribe_new [OF assms] lastMessageId_of_eq)

theorem subscribe_creation_replay_witness:
  "maybeExisting_of run_four 0 (id_of (topic_heap run_four 0) (opt_strategy IGNORE)) = None \<and>
   calls (snd (subscribe run_four 0 2 (opt_strategy IGNORE))) = calls run_four \<and>
   calls (snd (subscribe run_four 0 3 (opt_strategy LATEST))) =
     calls run_four @ [(None, 3, \<lparr>id_msg = 3, payload = 13, timestamp = 103\<rparr>)] \<and>
   calls (snd (subscribe run_four 0 4 (opt_strategy FULL))) =
     calls run_four @
       [(None, 4, \<lparr>id_msg = 0, payload = 10, timestamp = 100\<rparr>),
        (None, 4, \<lparr>id_msg = 1, payload = 11, timestamp = 101\<rparr>),
        (None, 4, \<lparr>id_msg = 2, payload = 12, timestamp = 102\<rparr>),
        (None, 4, \<lparr>id_msg = 3, payload = 13, timestamp = 103\<rparr>)] \<and>
   calls (snd (subscribe run_four 0 4 None)) =
     calls (snd (subscribe run_four 0 4 (opt_strategy FULL))) \<and>
   lastMessageId (sub_heap (snd (subscribe run_four 0 4 (opt_strategy FULL)))
                   (fst (subscribe run_four 0 4 (opt_strategy FULL)))) = Some 3 \<and>
   calls (snd (subscribe (fresh_topic None) 0 3 (opt_strategy LATEST))) = [] \<and>
   lastMessageId (sub_heap (snd (subscribe (fresh_topic None) 0 3 (opt_strategy LATEST)))
                   (fst (subscribe (fresh_topic None) 0 3 (opt_strategy LATEST)))) = None"
proof -
  have ms: "messages (topic_heap run_four 0) =
       [\<lparr>id_msg = 0, payload = 10, timestamp = 100\<rparr>,
        \<lparr>id_msg = 1, payload = 11, timestamp = 101\<rparr>,
        \<lparr>id_msg = 2, payload = 12, timestamp = 102\<rparr>,
        \<lparr>id_msg = 3, payload = 13, timestamp = 103\<rparr>]"
    by code_simp
  have me: "messages (topic_heap (fresh_topic None) 0) = []" by code_simp
  have s: "backlogStrategy_of (opt_strategy x) = x" "backlogStrategy_of None = FULL" for x
    by (simp_all add: backlogStrategy_of_def opt_strategy_def)
  have h: "maybeExisting_of run_four 0 (id_of (topic_heap run_four 0) (opt_strategy x)) = None"
    for x
    by (cases x; code_simp)
  have hn: "maybeExisting_of run_four 0 (id_of (topic_heap run_four 0) None) = None"
    by code_simp
  have he: "maybeExisting_of (fresh_topic None) 0
              (id_of (topic_heap (fresh_topic None) 0) (opt_strategy LATEST)) = None"
    by code_simp
  note a = subscribe_creation_replay [OF h, of 2 IGNORE]
    and b = subscribe_creation_replay [OF h, of 3 LATEST]
    and c = subscribe_creation_replay [OF h, of 4 FULL]
    and d = subscribe_creation_replay [OF hn, of 4]
    and e = subscribe_creation_replay [OF he, of 3]
  have ce: "calls (fresh_topic None) = []" by code_simp
  from a b c d e h [of IGNORE] ce show ?thesis
    unfolding ms me s by simp
qed

section \<open>\<open>subscribe\<close>: the update path\<close>

lemma maybeExisting_of_in_list:
  "maybeExisting_of w t i = Some r \<Longrightarrow>
     r \<in> set (subscriptions (topic_heap w t)) \<and> id_sub (sub_heap w r) = i"
  unfolding maybeExisting_of_def by (auto simp: find_Some_iff)

text \<open>
  Claim C7. When the topic has a subscription with the effective id, \<open>subscribe\<close> returns the
  reference of that subscription, which is in the topic's list. No object is allocated,
  and no topic changes: the list of subscriptions (its length and order) and \<open>nextSubId\<close>
  are as before. The subscription keeps its id and its topic name and gets the new
  callback; every other subscription is unchanged. On the creation path a new reference
  is appended to the list and \<open>nextSubId\<close> goes up by one.
\<close>

theorem resubscribe_in_place:
  "(maybeExisting_of w t (id_of (topic_heap w t) options) = Some r \<longrightarrow>
      fst (subscribe w t cb options) = r \<and>
      r \<in> set (subscriptions (topic_heap w t)) \<and>
      topic_heap (snd (subscribe w t cb options)) = topic_heap w \<and>
      next_sref (snd (subscribe w t cb options)) = next_sref w \<and>
      id_sub (sub_heap (snd (subscribe w t cb options)) r) = id_sub (sub_heap w r) \<and>
      topic (sub_heap (snd (subscribe w t cb options)) r) = topic (sub_heap w r) \<and>
      callback (sub_heap (snd (subscribe w t cb options)) r) = cb \<and>
      (\<forall>x. x \<noteq> r \<longrightarrow> sub_heap (snd (subscribe w t cb options)) x = sub_heap w x)) \<and>
   (maybeExisting_of w t (id_of (topic_heap w t) options) = None \<longrightarrow>
      fst (subscribe w t cb options) = next_sref w \<and>
      next_sref (snd (subscribe w t cb options)) = Suc (next_sref w) \<and>
      subscriptions (topic_heap (snd (subscribe w t cb options)) t) =
        subscriptions (topic_heap w t) @ [next_sref w] \<and>
      nextSubId (topic_heap (snd (subscribe w t cb options)) t) =
        nextSubId (topic_heap w t) + 1)"
proof (intro conjI impI)
  assume ex: "maybeExisting_of w t (id_of (topic_heap w t) options) = Some r"
  note eq = subscribe_existing [OF ex, of cb]
  show "fst (subscribe w t cb options) = r"
    and "topic_heap (snd (subscribe w t cb options)) = topic_heap w"
    and "next_sref (snd (subscribe w t cb options)) = next_sref w"
    and "id_sub (sub_heap (snd (subscribe w t cb options)) r) = id_sub (sub_heap w r)"
    and "topic (sub_heap (snd (subscribe w t cb options)) r) = topic (sub_heap w r)"
    and "callback (sub_heap (snd (subscribe w t cb options)) r) = cb"
    and "\<forall>x. x \<noteq> r \<longrightarrow> sub_heap (snd (subscribe w t cb options)) x = sub_heap w x"
    unfolding eq by simp_all
  from maybeExisting_of_in_list [OF ex] show "r \<in> set (subscriptions (topic_heap w t))"
    by simp
next
  assume new: "maybeExisting_of w t (id_of (topic_heap w t) options) = None"
  note eq = subscribe_new [OF new, of cb]
  show "fst (subscribe w t cb options) = next_sref w"
    and "next_sref (snd (subscribe w t cb options)) = Suc (next_sref w)"
    and "subscriptions (topic_heap (snd (subscribe w t cb options)) t) =
        subscriptions (topic_heap w t) @ [next_sref w]"
    and "nextSubId (topic_heap (snd (subscribe w t cb options)) t) =
        nextSubId (topic_heap w t) + 1"
    unfolding eq by simp_all
qed

theorem resubscribe_in_place_witness:
  "maybeExisting_of run_test 0 (id_of (topic_heap run_test 0) (opt_id 0)) = Some 0 \<and>
   fst (subscribe run_test 0 5 (opt_id 0)) = 0 \<and>
   subscriptions (topic_heap (snd (subscribe run_test 0 5 (opt_id 0))) 0) = [0] \<and>
   nextSubId (topic_heap (snd (subscribe run_test 0 5 (opt_id 0))) 0) = 1 \<and>
   next_sref (snd (subscribe run_test 0 5 (opt_id 0))) = 1 \<and>
   topic (sub_heap (snd (subscribe run_test 0 5 (opt_id 0))) 0) = ''demo'' \<and>
   id_sub (sub_heap (snd (subscribe run_test 0 5 (opt_id 0))) 0) = 0 \<and>
   callback (sub_heap (snd (subscribe run_test 0 5 (opt_id 0))) 0) = 5 \<and>
   maybeExisting_of run_test 0 (id_of (topic_heap run_test 0) None) = None \<and>
   fst (subscribe run_test 0 5 None) = 1 \<and>
   subscriptions (topic_heap (snd (subscribe run_test 0 5 None)) 0) = [0, 1] \<and>
   nextSubId (topic_heap (snd (subscribe run_test 0 5 None)) 0) = 2"
proof -
  have h1: "maybeExisting_of run_test 0 (id_of (topic_heap run_test 0) (opt_id 0)) = Some 0"
    by code_simp
  have h2: "maybeExisting_of run_test 0 (id_of (topic_heap run_test 0) None) = None"
    by code_simp
  have e: "subscriptions (topic_heap run_test 0) = [0]" "nextSubId (topic_heap run_test 0) = 1"
    "next_sref run_test = 1" "topic (sub_heap run_test 0) = ''demo''"
    "id_sub (sub_heap run_test 0) = 0"
    by code_simp+
  from resubscribe_in_place [of run_test 0 "opt_id 0" 0 5]
    resubscribe_in_place [of run_test 0 None 0 5] h1 h2 e
  show ?thesis by simp
qed

text \<open>
  \<open>startActive\<close> is computed as \<open>options && options.startActive ? options.startActive : true\<close>,
  which is \<open>true\<close> for every value of the option: the subscription that \<open>subscribe\<close> returns
  is always active.
\<close>

lemma subscribe_returns_active:
  "active (sub_heap (snd (subscribe w t cb options)) (fst (subscribe w t cb options))) = True"
proof (cases "maybeExisting_of w t (id_of (topic_heap w t) options)")
  case None
  from subscribe_new [OF None, of cb] show ?thesis by simp
next
  case (Some r)
  from subscribe_existing [OF Some, of cb] show ?thesis by simp
qed

text \<open>
  Claim C2. With \<open>{startActive: false}\<close> the returned subscription should be inactive. On the
  creation path it is stored active; on the update path an inactive subscription (the
  unsubscribed one of the test run) is made active.
\<close>

theorem startActive_false_is_ignored:
  "active (sub_heap (snd (subscribe (fresh_topic None) 0 1 opt_inactive))
                    (fst (subscribe (fresh_topic None) 0 1 opt_inactive))) = True \<and>
   active (sub_heap run_test 0) = False \<and>
   fst (subscribe run_test 0 1
          (Some \<lparr>id_opt = Some 0, backlogStrategy = None, startActive = Some False\<rparr>)) = 0 \<and>
   active (sub_heap (snd (subscribe run_test 0 1
          (Some \<lparr>id_opt = Some 0, backlogStrategy = None, startActive = Some False\<rparr>))) 0) = True"
  by code_simp

subsection \<open>The replay window of a returning subscription\<close>

text \<open>
  The \<open>full\<close> replay of the update path takes the messages after the position of the stored
  cursor. In a log whose ids increase these are the messages with a larger id, when the
  cursor is in the log or older than all of it.
\<close>

lemma resume_window_present:
  assumes "sorted_wrt (<) (map id_msg msgs)" and "c \<in> id_msg ` set msgs"
  shows "drop (nat (findIndex (\<lambda>m. id_msg m = c) msgs + 1)) msgs =
         filter (\<lambda>m. c < id_msg m) msgs"
  using assms
proof (induction msgs)
  case Nil
  then show ?case by simp
next
  case (Cons x xs)
  from Cons.prems(1) have sorted: "sorted_wrt (<) (map id_msg xs)"
    and above: "\<forall>m\<in>set xs. id_msg x < id_msg m"
    by simp_all
  show ?case
  proof (cases "id_msg x = c")
    case True
    with above have "filter (\<lambda>m. c < id_msg m) xs = xs" by simp
    with True show ?thesis by simp
  next
    case False
    with Cons.prems(2) have mem: "c \<in> id_msg ` set xs" by auto
    then have ne: "findIndex (\<lambda>m. id_msg m = c) xs \<noteq> - 1"
      using findIndex_none [of "\<lambda>m. id_msg m = c" xs] by auto
    have ge: "0 \<le> findIndex (\<lambda>m. id_msg m = c) xs"
      using findIndex_ge [of "\<lambda>m. id_msg m = c" xs] ne by arith
    from mem above have "id_msg x < c" by auto
    then have skip: "\<not> c < id_msg x" by simp
    have "nat (findIndex (\<lambda>m. id_msg m = c) (x # xs) + 1) =
          Suc (nat (findIndex (\<lambda>m. id_msg m = c) xs + 1))"
      using False ne ge by (simp add: Let_def nat_add_distrib)
    with Cons.IH [OF sorted mem] skip show ?thesis by simp
  qed
qed

lemma resume_window_evicted:
  assumes "c \<notin> id_msg ` set msgs"
  shows "drop (nat (findIndex (\<lambda>m. id_msg m = c) msgs + 1)) msgs = msgs"
proof -
  from assms have "findIndex (\<lambda>m. id_msg m = c) msgs = - 1"
    using findIndex_none [of "\<lambda>m. id_msg m = c" msgs] by auto
  then show ?thesis by simp
qed

lemma resume_window:
  assumes "sorted_wrt (<) (map id_msg msgs)"
    and "c \<in> id_msg ` set msgs \<or> (\<forall>m\<in>set msgs. c < id_msg m)"
  shows "drop (nat (findIndex (\<lambda>m. id_msg m = c) msgs + 1)) msgs =
         filter (\<lambda>m. c < id_msg m) msgs"
proof (cases "c \<in> id_msg ` set msgs")
  case True
  with assms(1) show ?thesis by (rule resume_window_present)
next
  case False
  with assms(2) have "\<forall>m\<in>set msgs. c < id_msg m" by simp
  then have "filter (\<lambda>m. c < id_msg m) msgs = msgs" by simp
  with resume_window_evicted [OF False] show ?thesis by simp
qed

text \<open>
  Claim C1, amended. On the update path, let the stored cursor be an id \<open>c\<close> other than \<open>0\<close>
  that differs from the id of the newest message of a log that is not empty (\<open>startActive\<close>
  is true for every call), the ids of the log increasing and \<open>c\<close> in the log or older than
  all of it. Then the replay is that of the strategy on the messages with an id larger than
  \<open>c\<close>: all of them, oldest first, for \<open>full\<close>; the newest message for \<open>latest\<close>; none for
  \<open>ignore\<close>. With a stored cursor \<open>null\<close> nothing is replayed. In every case the cursor is
  afterwards the id of the newest message (\<open>null\<close> for an empty log). The hypotheses on the
  log and on the place of the cursor hold in every world of a run (\<open>run_log_and_cursor\<close>).
\<close>

theorem resubscribe_replay:
  assumes "maybeExisting_of w t (id_of (topic_heap w t) options) = Some r"
  shows "(lastMessageId (sub_heap w r) = Some c \<and> c \<noteq> 0 \<and>
          messages (topic_heap w t) \<noteq> [] \<and>
          c \<noteq> id_msg (last (messages (topic_heap w t))) \<and>
          sorted_wrt (<) (map id_msg (messages (topic_heap w t))) \<and>
          (c \<in> id_msg ` set (messages (topic_heap w t)) \<or>
           (\<forall>m\<in>set (messages (topic_heap w t)). c < id_msg m)) \<longrightarrow>
          calls (snd (subscribe w t cb options)) = calls w @
            (case backlogStrategy_of options of
               IGNORE \<Rightarrow> []
             | LATEST \<Rightarrow> [(None, cb, last (messages (topic_heap w t)))]
             | FULL \<Rightarrow> map (\<lambda>m. (None, cb, m))
                        (filter (\<lambda>m. c < id_msg m) (messages (topic_heap w t))))) \<and>
         (lastMessageId (sub_heap w r) = None \<longrightarrow>
          calls (snd (subscribe w t cb options)) = calls w) \<and>
         lastMessageId (sub_heap (snd (subscribe w t cb options)) r) =
           (if messages (topic_heap w t) = [] then None
            else Some (id_msg (last (messages (topic_heap w t)))))"
proof (intro conjI impI)
  note eq = subscribe_existing [OF assms, of cb]
  show "lastMessageId (sub_heap (snd (subscribe w t cb options)) r) =
           (if messages (topic_heap w t) = [] then None
            else Some (id_msg (last (messages (topic_heap w t)))))"
    unfolding eq by (simp add: lastMessageId_of_eq)
  show "calls (snd (subscribe w t cb options)) = calls w"
    if "lastMessageId (sub_heap w r) = None"
    unfolding eq using that by (simp add: truthy_num_def)
  show "calls (snd (subscribe w t cb options)) = calls w @
            (case backlogStrategy_of options of
               IGNORE \<Rightarrow> []
             | LATEST \<Rightarrow> [(None, cb, last (messages (topic_heap w t)))]
             | FULL \<Rightarrow> map (\<lambda>m. (None, cb, m))
                        (filter (\<lambda>m. c < id_msg m) (messages (topic_heap w t))))"
    if h: "lastMessageId (sub_heap w r) = Some c \<and> c \<noteq> 0 \<and>
          messages (topic_heap w t) \<noteq> [] \<and>
          c \<noteq> id_msg (last (messages (topic_heap w t))) \<and>
          sorted_wrt (<) (map id_msg (messages (topic_heap w t))) \<and>
          (c \<in> id_msg ` set (messages (topic_heap w t)) \<or>
           (\<forall>m\<in>set (messages (topic_heap w t)). c < id_msg m))"
  proof -
    from h have win: "drop (nat (findIndex (\<lambda>m. id_msg m = c)
                             (messages (topic_heap w t)) + 1)) (messages (topic_heap w t)) =
         filter (\<lambda>m. c < id_msg m) (messages (topic_heap w t))"
      by (intro resume_window) simp_all
    from h show ?thesis
      unfolding eq
      by (cases "backlogStrategy_of options")
         (simp_all add: truthy_num_def lastMessageId_of_eq win)
  qed
qed

theorem resubscribe_replay_witness:
  "maybeExisting_of run_test 0 (id_of (topic_heap run_test 0) (opt_id 0)) = Some 0 \<and>
   lastMessageId (sub_heap run_test 0) = Some 3 \<and>
   map id_msg (messages (topic_heap run_test 0)) = [0, 1, 2, 3, 4, 5, 6, 7] \<and>
   calls (snd (subscribe run_test 0 1 (opt_id 0))) = calls run_test @
     [(None, 1, \<lparr>id_msg = 4, payload = 14, timestamp = 104\<rparr>),
      (None, 1, \<lparr>id_msg = 5, payload = 15, timestamp = 105\<rparr>),
      (None, 1, \<lparr>id_msg = 6, payload = 16, timestamp = 106\<rparr>),
      (None, 1, \<lparr>id_msg = 7, payload = 17, timestamp = 107\<rparr>)] \<and>
   lastMessageId (sub_heap (snd (subscribe run_test 0 1 (opt_id 0))) 0) = Some 7 \<and>
   maybeExisting_of run_null_cursor 0 (id_of (topic_heap run_null_cursor 0) (opt_id 0)) = Some 0 \<and>
   lastMessageId (sub_heap run_null_cursor 0) = None \<and>
   calls (snd (subscribe run_null_cursor 0 1 (opt_id 0))) = calls run_null_cursor \<and>
   lastMessageId (sub_heap (snd (subscribe run_null_cursor 0 1 (opt_id 0))) 0) = Some 1"
proof -
  have h: "maybeExisting_of run_test 0 (id_of (topic_heap run_test 0) (opt_id 0)) = Some 0"
    by code_simp
  have pre: "lastMessageId (sub_heap run_test 0) = Some 3 \<and> (3::int) \<noteq> 0 \<and>
          messages (topic_heap run_test 0) \<noteq> [] \<and>
          3 \<noteq> id_msg (last (messages (topic_heap run_test 0))) \<and>
          sorted_wrt (<) (map id_msg (messages (topic_heap run_test 0))) \<and>
          (3 \<in> id_msg ` set (messages (topic_heap run_test 0)) \<or>
           (\<forall>m\<in>set (messages (topic_heap run_test 0)). 3 < id_msg m))"
    by code_simp
  have ids: "map id_msg (messages (topic_heap run_test 0)) = [0, 1, 2, 3, 4, 5, 6, 7]"
    by code_simp
  have rhs: "calls run_test @
            (case backlogStrategy_of (opt_id 0) of
               IGNORE \<Rightarrow> []
             | LATEST \<Rightarrow> [(None, 1, last (messages (topic_heap run_test 0)))]
             | FULL \<Rightarrow> map (\<lambda>m. (None, 1, m))
                        (filter (\<lambda>m. 3 < id_msg m) (messages (topic_heap run_test 0)))) =
      calls run_test @
      [(None, 1, \<lparr>id_msg = 4, payload = 14, timestamp = 104\<rparr>),
       (None, 1, \<lparr>id_msg = 5, payload = 15, timestamp = 105\<rparr>),
       (None, 1, \<lparr>id_msg = 6, payload = 16, timestamp = 106\<rparr>),
       (None, 1, \<lparr>id_msg = 7, payload = 17, timestamp = 107\<rparr>)]"
    by code_simp
  have cur: "(if messages (topic_heap run_test 0) = [] then None
            else Some (id_msg (last (messages (topic_heap run_test 0))))) = Some 7"
    by code_simp
  note a = resubscribe_replay [OF h, of 3 1]
  from a pre have a1: "calls (snd (subscribe run_test 0 1 (opt_id 0))) = calls run_test @
     [(None, 1, \<lparr>id_msg = 4, payload = 14, timestamp = 104\<rparr>),
      (None, 1, \<lparr>id_msg = 5, payload = 15, timestamp = 105\<rparr>),
      (None, 1, \<lparr>id_msg = 6, payload = 16, timestamp = 106\<rparr>),
      (None, 1, \<lparr>id_msg = 7, payload = 17, timestamp = 107\<rparr>)]"
    unfolding rhs [symmetric] by blast
  from a have a2: "lastMessageId (sub_heap (snd (subscribe run_test 0 1 (opt_id 0))) 0) = Some 7"
    unfolding cur by blast
  have hn: "maybeExisting_of run_null_cursor 0
              (id_of (topic_heap run_null_cursor 0) (opt_id 0)) = Some 0"
    by code_simp
  have pn: "lastMessageId (sub_heap run_null_cursor 0) = None" by code_simp
  have curn: "(if messages (topic_heap run_null_cursor 0) = [] then None
            else Some (id_msg (last (messages (topic_heap run_null_cursor 0))))) = Some 1"
    by code_simp
  note b = resubscribe_replay [OF hn, of 0 1]
  from b pn have b1: "calls (snd (subscribe run_null_cursor 0 1 (opt_id 0))) =
      calls run_null_cursor"
    by blast
  from b have b2: "lastMessageId (sub_heap (snd (subscribe run_null_cursor 0 1 (opt_id 0))) 0) =
      Some 1"
    unfolding curn by blast
  from h pre ids a1 a2 hn pn b1 b2 show ?thesis by blast
qed

text \<open>
  Claim C1 as stated has the replay also for a stored cursor \<open>null\<close> or \<open>0\<close>. The guard at
  line 139 is \<open>maybeExisting.lastMessageId && ...\<close>, and both are falsy. A subscription made
  on an empty log and unsubscribed misses two messages and gets none of them on
  re-subscribing with \<open>full\<close>; so does one whose cursor is \<open>0\<close>.
\<close>

theorem resubscribe_null_or_zero_cursor_no_replay:
  "maybeExisting_of run_null_cursor 0 (id_of (topic_heap run_null_cursor 0) (opt_id 0)) = Some 0 \<and>
   lastMessageId (sub_heap run_null_cursor 0) = None \<and>
   lastMessageId_of (messages (topic_heap run_null_cursor 0)) = Some 1 \<and>
   startActive_of (opt_id 0) = True \<and>
   backlogStrategy_of (opt_id 0) = FULL \<and>
   calls (snd (subscribe run_null_cursor 0 1 (opt_id 0))) = calls run_null_cursor \<and>
   maybeExisting_of run_zero_cursor 0 (id_of (topic_heap run_zero_cursor 0) (opt_id 0)) = Some 0 \<and>
   lastMessageId (sub_heap run_zero_cursor 0) = Some 0 \<and>
   map id_msg (messages (topic_heap run_zero_cursor 0)) = [0, 1, 2] \<and>
   calls (snd (subscribe run_zero_cursor 0 1 (opt_id 0))) = calls run_zero_cursor"
  by code_simp

text \<open>
  A stored cursor other than \<open>0\<close> that is no longer in the log: \<open>findIndex\<close> gives \<open>-1\<close>, and
  \<open>full\<close> replays the whole log.
\<close>

lemma resubscribe_evicted_cursor_full:
  assumes "maybeExisting_of w t (id_of (topic_heap w t) options) = Some r"
    and "backlogStrategy_of options = FULL"
    and "lastMessageId (sub_heap w r) = Some c" and "c \<noteq> 0"
    and "c \<notin> id_msg ` set (messages (topic_heap w t))"
  shows "calls (snd (subscribe w t cb options)) =
     calls w @ map (\<lambda>m. (None, cb, m)) (messages (topic_heap w t))"
proof (cases "messages (topic_heap w t) = []")
  case True
  then show ?thesis
    unfolding subscribe_existing [OF assms(1), of cb] by simp
next
  case False
  with assms(5) have "c \<noteq> id_msg (last (messages (topic_heap w t)))"
    using last_in_set [OF False] by blast
  with False assms(2-4) resume_window_evicted [OF assms(5)] show ?thesis
    unfolding subscribe_existing [OF assms(1), of cb]
    by (simp add: truthy_num_def lastMessageId_of_eq)
qed

text \<open>
  Claim C9. The claim covers every evicted cursor. On a topic that keeps one message, the
  subscription whose cursor is \<open>0\<close> is unsubscribed and message \<open>0\<close> is evicted by message
  \<open>1\<close>; re-subscribing with \<open>full\<close> should replay the retained log, and replays nothing,
  since the cursor \<open>0\<close> is falsy in the guard at line 139.
\<close>

theorem resubscribe_evicted_zero_cursor_no_replay:
  "maybeExisting_of run_evicted_zero 0 (id_of (topic_heap run_evicted_zero 0) (opt_id 0)) = Some 0 \<and>
   backlogStrategy_of (opt_id 0) = FULL \<and>
   lastMessageId (sub_heap run_evicted_zero 0) = Some 0 \<and>
   messages (topic_heap run_evicted_zero 0) = [\<lparr>id_msg = 1, payload = 11, timestamp = 101\<rparr>] \<and>
   calls (snd (subscribe run_evicted_zero 0 1 (opt_id 0))) = calls run_evicted_zero"
  by code_simp

section \<open>The worlds of a run\<close>

text \<open>The invariants hold in the initial world, and every call keeps them.\<close>

lemma wf_init: "wf_World init_World"
  by (simp add: wf_World_def subs_ok_def log_ok_def cursors_ok_def init_World_def)

subsection \<open>\<open>getTopic\<close> and \<open>unsubscribe\<close>\<close>

lemma getTopic_world:
  "snd (snd (getTopic w bus nm mls)) = w \<or>
   snd (snd (getTopic w bus nm mls)) =
     w\<lparr>topic_heap := (topic_heap w)
          (next_tref w := \<lparr>name = nm, messages = [], subscriptions = [],
             maxLogSize = (if truthy_num mls then the mls else - 1),
             nextSubId = 0, nextMessageID = 0\<rparr>),
       next_tref := Suc (next_tref w)\<rparr>"
  by (simp add: getTopic_def Let_def split: option.splits)

lemma truthy_num_nonzero: "(if truthy_num mls then the mls else - 1) \<noteq> 0"
  by (cases mls) (simp_all add: truthy_num_def)

lemma wf_getTopic:
  assumes "wf_World w"
  shows "wf_World (snd (snd (getTopic w bus nm mls)))"
proof -
  from getTopic_world [of w bus nm mls] show ?thesis
  proof
    assume "snd (snd (getTopic w bus nm mls)) = w"
    with assms show ?thesis by simp
  next
    assume eq: "snd (snd (getTopic w bus nm mls)) =
     w\<lparr>topic_heap := (topic_heap w)
          (next_tref w := \<lparr>name = nm, messages = [], subscriptions = [],
             maxLogSize = (if truthy_num mls then the mls else - 1),
             nextSubId = 0, nextMessageID = 0\<rparr>),
       next_tref := Suc (next_tref w)\<rparr>"
    from assms have s: "subs_ok w" and l: "log_ok w" and c: "cursors_ok w"
      by (simp_all add: wf_World_def)
    have "subs_ok (snd (snd (getTopic w bus nm mls)))"
      unfolding eq using s by (simp add: subs_ok_def)
    moreover have "log_ok (snd (snd (getTopic w bus nm mls)))"
      unfolding eq using l truthy_num_nonzero [of mls] by (auto simp: log_ok_def split: if_splits)
    moreover have "cursors_ok (snd (snd (getTopic w bus nm mls)))"
      unfolding eq using c by (simp add: cursors_ok_def)
    ultimately show ?thesis by (simp add: wf_World_def)
  qed
qed

lemma wf_unsubscribe:
  assumes "wf_World w"
  shows "wf_World (unsubscribe w s)"
  using assms
  by (simp add: wf_World_def subs_ok_def log_ok_def cursors_ok_def unsubscribe_def upd_sub_def)

subsection \<open>\<open>subscribe\<close> keeps the invariants\<close>

lemma lastMessageId_of_cursor_ok:
  assumes "\<forall>m\<in>set msgs. id_msg m < n"
  shows "cursor_ok (lastMessageId_of msgs) msgs n"
proof (cases "msgs = []")
  case True
  then show ?thesis by (simp add: cursor_ok_def lastMessageId_of_eq)
next
  case False
  then have "last msgs \<in> set msgs" by simp
  with assms False show ?thesis by (auto simp: cursor_ok_def lastMessageId_of_eq)
qed

lemma wf_subscribe:
  assumes "wf_World w"
  shows "wf_World (snd (subscribe w t cb options))"
proof -
  from assms have s: "subs_ok w" and l: "log_ok w" and c: "cursors_ok w"
    by (simp_all add: wf_World_def)
  from l have below: "\<forall>m\<in>set (messages (topic_heap w t)). id_msg m < nextMessageID (topic_heap w t)"
    by (simp add: log_ok_def)
  note cur = lastMessageId_of_cursor_ok [OF below]
  show ?thesis
  proof (cases "maybeExisting_of w t (id_of (topic_heap w t) options)")
    case (Some r)
    note eq = subscribe_existing [OF Some, of cb]
    from maybeExisting_of_in_list [OF Some] have r: "r \<in> set (subscriptions (topic_heap w t))"
      by simp
    have "subs_ok (snd (subscribe w t cb options))"
      unfolding eq using s by (simp add: subs_ok_def)
    moreover have "log_ok (snd (subscribe w t cb options))"
      unfolding eq using l by (simp add: log_ok_def)
    moreover have "cursors_ok (snd (subscribe w t cb options))"
      unfolding cursors_ok_def
    proof (intro allI ballI)
      fix t' x
      assume x: "x \<in> set (subscriptions (topic_heap (snd (subscribe w t cb options)) t'))"
      then have x': "x \<in> set (subscriptions (topic_heap w t'))" unfolding eq by simp
      show "cursor_ok (lastMessageId (sub_heap (snd (subscribe w t cb options)) x))
              (messages (topic_heap (snd (subscribe w t cb options)) t'))
              (nextMessageID (topic_heap (snd (subscribe w t cb options)) t'))"
      proof (cases "x = r")
        case True
        have "t' = t"
        proof (rule ccontr)
          assume "t' \<noteq> t"
          with s have "set (subscriptions (topic_heap w t)) \<inter>
                       set (subscriptions (topic_heap w t')) = {}"
            by (simp add: subs_ok_def)
          with r x' True show False by auto
        qed
        with True cur show ?thesis unfolding eq by simp
      next
        case False
        with c x' show ?thesis unfolding eq by (simp add: cursors_ok_def)
      qed
    qed
    ultimately show ?thesis by (simp add: wf_World_def)
  next
    case None
    note eq = subscribe_new [OF None, of cb]
    from s have fresh: "next_sref w \<notin> set (subscriptions (topic_heap w t'))" for t'
      by (auto simp: subs_ok_def)
    have th: "topic_heap (snd (subscribe w t cb options)) =
        (topic_heap w)
          (t := (topic_heap w t)
             \<lparr>subscriptions := subscriptions (topic_heap w t) @ [next_sref w],
              nextSubId := nextSubId (topic_heap w t) + 1\<rparr>)"
      and nx: "next_sref (snd (subscribe w t cb options)) = Suc (next_sref w)"
      and sh: "sub_heap (snd (subscribe w t cb options)) =
        (sub_heap w)
          (next_sref w := \<lparr>id_sub = id_of (topic_heap w t) options,
             topic = name (topic_heap w t),
             lastMessageId = lastMessageId_of (messages (topic_heap w t)),
             callback = cb, active = True\<rparr>)"
      unfolding eq by simp_all
    have "subs_ok (snd (subscribe w t cb options))"
      unfolding subs_ok_def th nx
    proof (intro allI conjI ballI impI)
      fix t' :: nat
      show "distinct (subscriptions (((topic_heap w)
          (t := (topic_heap w t)
             \<lparr>subscriptions := subscriptions (topic_heap w t) @ [next_sref w],
              nextSubId := nextSubId (topic_heap w t) + 1\<rparr>)) t'))"
        using s fresh [of t] by (simp add: subs_ok_def)
    next
      fix t' :: nat and r :: nat
      assume "r \<in> set (subscriptions (((topic_heap w)
          (t := (topic_heap w t)
             \<lparr>subscriptions := subscriptions (topic_heap w t) @ [next_sref w],
              nextSubId := nextSubId (topic_heap w t) + 1\<rparr>)) t'))"
      with s show "r < Suc (next_sref w)"
        by (auto simp: subs_ok_def less_Suc_eq split: if_splits)
    next
      fix t' t'' :: nat
      assume "t'' \<noteq> t'"
      with s fresh [of t'] fresh [of t'']
      show "set (subscriptions (((topic_heap w)
          (t := (topic_heap w t)
             \<lparr>subscriptions := subscriptions (topic_heap w t) @ [next_sref w],
              nextSubId := nextSubId (topic_heap w t) + 1\<rparr>)) t')) \<inter>
        set (subscriptions (((topic_heap w)
          (t := (topic_heap w t)
             \<lparr>subscriptions := subscriptions (topic_heap w t) @ [next_sref w],
              nextSubId := nextSubId (topic_heap w t) + 1\<rparr>)) t'')) = {}"
        by (simp add: subs_ok_def)
    qed
    moreover have "log_ok (snd (subscribe w t cb options))"
      unfolding log_ok_def th using l by (simp add: log_ok_def)
    moreover have "cursors_ok (snd (subscribe w t cb options))"
      unfolding cursors_ok_def th sh using c cur fresh by (auto simp: cursors_ok_def)
    ultimately show ?thesis by (simp add: wf_World_def)
  qed
qed

subsection \<open>\<open>sendMessage\<close> keeps the invariants\<close>

lemma cursor_ok_append:
  assumes "cursor_ok c msgs n" and "id_msg m = n"
  shows "cursor_ok c (msgs @ [m]) (n + 1)"
  using assms by (cases c) (auto simp: cursor_ok_def)

lemma cursor_ok_suffix:
  assumes "sorted_wrt (<) (map id_msg (xs @ ys))" and "cursor_ok c (xs @ ys) n"
  shows "cursor_ok c ys n"
proof (cases c)
  case None
  then show ?thesis by (simp add: cursor_ok_def)
next
  case (Some i)
  from assms(1) have above: "\<forall>x\<in>set xs. \<forall>y\<in>set ys. id_msg x < id_msg y"
    by (simp add: sorted_wrt_append)
  from assms(2) Some have n: "i < n"
    and pos: "i \<in> id_msg ` set xs \<or> i \<in> id_msg ` set ys \<or>
              (\<forall>m\<in>set (xs @ ys). i < id_msg m)"
    by (auto simp: cursor_ok_def)
  from pos above have "i \<in> id_msg ` set ys \<or> (\<forall>m\<in>set ys. i < id_msg m)" by auto
  with n Some show ?thesis by (simp add: cursor_ok_def)
qed

lemma evicted_log:
  assumes "k \<noteq> 0" and "- 1 \<le> k"
  shows "\<exists>j \<le> length msgs.
     (if k = - 1 then (\<lambda>l. l) else drop (Suc (length msgs) - nat k)) (msgs @ [m]) =
       drop j (msgs @ [m])"
proof (cases "k = - 1")
  case True
  then show ?thesis by (intro exI [of _ 0]) simp
next
  case False
  with assms have "0 < nat k" by simp
  then have "Suc (length msgs) - nat k \<le> length msgs" by simp
  with False show ?thesis by (intro exI [of _ "Suc (length msgs) - nat k"]) simp
qed

lemma wf_sendMessage:
  assumes "wf_World w" and "sendMessage w t p now = Some w'"
  shows "wf_World w'"
proof -
  from assms(1) have s: "subs_ok w" and l: "log_ok w" and c: "cursors_ok w"
    by (simp_all add: wf_World_def)
  let ?tp = "topic_heap w t"
  let ?m = "\<lparr>id_msg = nextMessageID ?tp, payload = p, timestamp = now\<rparr>"
  from assms(2) have ge: "- 1 \<le> maxLogSize ?tp"
    using sendMessage_returns_iff [of w t p now] by blast
  from l have nz: "maxLogSize ?tp \<noteq> 0"
    and sorted: "sorted_wrt (<) (map id_msg (messages ?tp))"
    and below: "\<forall>x\<in>set (messages ?tp). id_msg x < nextMessageID ?tp"
    by (simp_all add: log_ok_def)
  from evicted_log [OF nz ge, of "messages ?tp" ?m] obtain j
    where j: "j \<le> length (messages ?tp)"
      and ev: "(if maxLogSize ?tp = - 1 then (\<lambda>l. l)
                else drop (Suc (length (messages ?tp)) - nat (maxLogSize ?tp)))
                 (messages ?tp @ [?m]) = drop j (messages ?tp @ [?m])"
    by blast
  have th: "topic_heap w' =
      (topic_heap w)
        (t := ?tp\<lparr>nextMessageID := nextMessageID ?tp + 1,
                   messages := drop j (messages ?tp @ [?m])\<rparr>)"
    using sendMessage_topic_heap [OF assms(2)] unfolding ev .
  note sh = sendMessage_sub_heap [OF assms(2)]
  from sendMessage_refs [OF assms(2)] have nx: "next_sref w' = next_sref w" by simp
  have sorted': "sorted_wrt (<) (map id_msg (messages ?tp @ [?m]))"
    using sorted below by (simp add: sorted_wrt_append)
  have split: "take j (messages ?tp @ [?m]) @ drop j (messages ?tp @ [?m]) = messages ?tp @ [?m]"
    by (rule append_take_drop_id)
  have newest: "?m \<in> set (drop j (messages ?tp @ [?m]))"
    using j by simp
  have "subs_ok w'"
    unfolding subs_ok_def th nx using s by (simp add: subs_ok_def)
  moreover have "log_ok w'"
    unfolding log_ok_def
  proof (intro allI conjI ballI)
    fix t' :: nat
    show "sorted_wrt (<) (map id_msg (messages (topic_heap w' t')))"
    proof (cases "t' = t")
      case True
      from sorted' have "sorted_wrt (<) (drop j (map id_msg (messages ?tp @ [?m])))"
        by (rule sorted_wrt_drop)
      then have "sorted_wrt (<) (map id_msg (drop j (messages ?tp @ [?m])))"
        by (simp only: drop_map)
      moreover from True have "messages (topic_heap w' t') = drop j (messages ?tp @ [?m])"
        unfolding th by simp
      ultimately show ?thesis by (simp only:)
    next
      case False
      with l show ?thesis unfolding th by (simp add: log_ok_def)
    qed
    show "maxLogSize (topic_heap w' t') \<noteq> 0"
      using l unfolding th by (simp add: log_ok_def)
  next
    fix t' :: nat and x
    assume x: "x \<in> set (messages (topic_heap w' t'))"
    show "id_msg x < nextMessageID (topic_heap w' t')"
    proof (cases "t' = t")
      case True
      with x have "x \<in> set (drop j (messages ?tp @ [?m]))" unfolding th by simp
      then have "x \<in> set (messages ?tp @ [?m])" by (rule in_set_dropD)
      with below True show ?thesis unfolding th by auto
    next
      case False
      with l x show ?thesis unfolding th by (simp add: log_ok_def)
    qed
  qed
  moreover have "cursors_ok w'"
    unfolding cursors_ok_def
  proof (intro allI ballI)
    fix t' :: nat and r :: nat
    assume "r \<in> set (subscriptions (topic_heap w' t'))"
    then have r: "r \<in> set (subscriptions (topic_heap w t'))" unfolding th by (simp split: if_splits)
    from c r have old: "cursor_ok (lastMessageId (sub_heap w r)) (messages (topic_heap w t'))
        (nextMessageID (topic_heap w t'))"
      by (simp add: cursors_ok_def)
    show "cursor_ok (lastMessageId (sub_heap w' r)) (messages (topic_heap w' t'))
        (nextMessageID (topic_heap w' t'))"
    proof (cases "t' = t")
      case True
      show ?thesis
      proof (cases "active (sub_heap w r)")
        case active: True
        with r \<open>t' = t\<close> have "lastMessageId (sub_heap w' r) = Some (nextMessageID ?tp)"
          unfolding sh by simp
        moreover have "nextMessageID ?tp \<in> id_msg ` set (drop j (messages ?tp @ [?m]))"
          using newest by force
        ultimately show ?thesis
          using \<open>t' = t\<close> unfolding th by (simp add: cursor_ok_def)
      next
        case False
        then have same: "sub_heap w' r = sub_heap w r" unfolding sh by simp
        from old \<open>t' = t\<close> have "cursor_ok (lastMessageId (sub_heap w r)) (messages ?tp)
            (nextMessageID ?tp)"
          by simp
        then have "cursor_ok (lastMessageId (sub_heap w r)) (messages ?tp @ [?m])
            (nextMessageID ?tp + 1)"
          by (rule cursor_ok_append) simp
        then have "cursor_ok (lastMessageId (sub_heap w r))
            (take j (messages ?tp @ [?m]) @ drop j (messages ?tp @ [?m])) (nextMessageID ?tp + 1)"
          unfolding split .
        moreover from sorted' have "sorted_wrt (<) (map id_msg
            (take j (messages ?tp @ [?m]) @ drop j (messages ?tp @ [?m])))"
          unfolding split .
        ultimately have "cursor_ok (lastMessageId (sub_heap w r))
            (drop j (messages ?tp @ [?m])) (nextMessageID ?tp + 1)"
          by (rule cursor_ok_suffix [rotated])
        with \<open>t' = t\<close> same show ?thesis unfolding th by simp
      qed
    next
      case False
      with s have "set (subscriptions (topic_heap w t)) \<inter> set (subscriptions (topic_heap w t')) = {}"
        by (simp add: subs_ok_def)
      with r have "r \<notin> set (subscriptions (topic_heap w t))" by auto
      then have "sub_heap w' r = sub_heap w r" unfolding sh by simp
      with old False show ?thesis unfolding th by simp
    qed
  qed
  ultimately show ?thesis by (simp add: wf_World_def)
qed

lemma wf_step:
  assumes "wf_World w" and "step w a = Some w'"
  shows "wf_World w'"
proof (cases a)
  case (GetTopic bus nm mls)
  with assms wf_getTopic [of w bus nm mls] show ?thesis by auto
next
  case (Subscribe t cb options)
  with assms wf_subscribe [of w t cb options] show ?thesis by auto
next
  case (SendMessage t p now)
  with assms wf_sendMessage [of w t p now w'] show ?thesis by auto
next
  case (Unsubscribe s)
  with assms wf_unsubscribe [of w s] show ?thesis by auto
qed

lemma wf_run:
  assumes "wf_World w" and "run w as = Some w'"
  shows "wf_World w'"
  using assms
proof (induction as arbitrary: w)
  case Nil
  then show ?case by simp
next
  case (Cons a as)
  from Cons.prems(2) obtain w1 where w1: "step w a = Some w1" and rest: "run w1 as = Some w'"
    by (auto split: option.splits)
  from wf_step [OF Cons.prems(1) w1] rest show ?case by (rule Cons.IH)
qed

lemma wf_reachable: "run init_World as = Some w \<Longrightarrow> wf_World w"
  using wf_init by (rule wf_run)

text \<open>
  In the worlds of a run, the hypotheses of the theorems on the fan-out and on the replay
  window hold: the list of a topic has no subscription twice, the ids of its log increase,
  and the cursor of each of its subscriptions is in the log or older than all of it.
\<close>

lemma run_distinct_subscriptions:
  "run init_World as = Some w \<Longrightarrow> distinct (subscriptions (topic_heap w t))"
  using wf_reachable [of as w] by (simp add: wf_World_def subs_ok_def)

lemma run_log_and_cursor:
  assumes "run init_World as = Some w"
    and "r \<in> set (subscriptions (topic_heap w t))"
    and "lastMessageId (sub_heap w r) = Some c"
  shows "sorted_wrt (<) (map id_msg (messages (topic_heap w t))) \<and>
     (c \<in> id_msg ` set (messages (topic_heap w t)) \<or>
      (\<forall>m\<in>set (messages (topic_heap w t)). c < id_msg m))"
proof -
  from wf_reachable [OF assms(1)] have l: "log_ok w" and c: "cursors_ok w"
    by (simp_all add: wf_World_def)
  from c assms(2) have "cursor_ok (lastMessageId (sub_heap w r)) (messages (topic_heap w t))
      (nextMessageID (topic_heap w t))"
    by (simp add: cursors_ok_def)
  with assms(3) l show ?thesis by (simp add: cursor_ok_def log_ok_def)
qed

section \<open>A topic whose \<open>nextSubId\<close> is taken\<close>

lemma subscribe_existing_frame:
  assumes "maybeExisting_of w t (id_of (topic_heap w t) options) = Some r"
  shows "topic_heap (snd (subscribe w t cb options)) = topic_heap w \<and>
     next_sref (snd (subscribe w t cb options)) = next_sref w \<and>
     id_sub (sub_heap (snd (subscribe w t cb options)) x) = id_sub (sub_heap w x)"
  unfolding subscribe_existing [OF assms, of cb] by simp

lemma same_ids_refl: "same_ids w w t"
  by (simp add: same_ids_def)

lemma same_ids_trans: "same_ids w w1 t \<Longrightarrow> same_ids w1 w2 t \<Longrightarrow> same_ids w w2 t"
  by (simp add: same_ids_def)

lemma find_map_cong:
  "map f xs = map g xs \<Longrightarrow> find (\<lambda>r. f r = i) xs = find (\<lambda>r. g r = i) xs"
  by (induction xs) auto

lemma same_ids_maybeExisting:
  assumes "same_ids w w' t"
  shows "maybeExisting_of w' t i = maybeExisting_of w t i"
  using assms find_map_cong [of "\<lambda>r. id_sub (sub_heap w' r)" "subscriptions (topic_heap w t)"
      "\<lambda>r. id_sub (sub_heap w r)" i]
  by (simp add: same_ids_def maybeExisting_of_def)

lemma next_tref_step:
  assumes "step w a = Some w'"
  shows "next_tref w \<le> next_tref w'"
proof (cases a)
  case (GetTopic bus nm mls)
  with assms getTopic_world [of w bus nm mls] show ?thesis by auto
next
  case (Subscribe t cb options)
  show ?thesis
  proof (cases "maybeExisting_of w t (id_of (topic_heap w t) options)")
    case None
    from subscribe_new [OF None, of cb] assms Subscribe show ?thesis by auto
  next
    case (Some r)
    from subscribe_existing [OF Some, of cb] assms Subscribe show ?thesis by auto
  qed
next
  case (SendMessage t p now)
  with assms sendMessage_refs [of w t p now w'] show ?thesis by simp
next
  case (Unsubscribe s)
  with assms show ?thesis by (auto simp: unsubscribe_def upd_sub_def)
qed

lemma same_ids_step:
  assumes wf: "wf_World w" and t: "t < next_tref w"
    and stuck: "maybeExisting_of w t (nextSubId (topic_heap w t)) \<noteq> None"
    and ok: "keeps_ids w t a"
    and st: "step w a = Some w'"
  shows "same_ids w w' t"
proof (cases a)
  case (GetTopic bus nm mls)
  with st have w': "w' = snd (snd (getTopic w bus nm mls))" by simp
  from getTopic_world [of w bus nm mls] t show ?thesis
    unfolding w' by (auto simp: same_ids_def)
next
  case (Unsubscribe s)
  with st show ?thesis by (auto simp: same_ids_def unsubscribe_def upd_sub_def)
next
  case (SendMessage t' p now)
  with st have s: "sendMessage w t' p now = Some w'" by simp
  from sendMessage_topic_heap [OF s] sendMessage_sub_heap [OF s] show ?thesis
    by (simp add: same_ids_def)
next
  case (Subscribe t' cb options)
  with st have w': "w' = snd (subscribe w t' cb options)" by simp
  show ?thesis
  proof (cases "maybeExisting_of w t' (id_of (topic_heap w t') options)")
    case (Some r)
    from subscribe_existing_frame [OF Some, of cb] show ?thesis
      unfolding w' by (simp add: same_ids_def)
  next
    case None
    have ne: "t' \<noteq> t"
    proof
      assume eq: "t' = t"
      show False
      proof (cases "id_given options")
        case None': None
        with None eq stuck show False by (simp add: id_of_def)
      next
        case (Some i)
        with ok Subscribe eq have "maybeExisting_of w t i \<noteq> None"
          by (simp add: keeps_ids_def)
        with None eq Some show False by (simp add: id_of_def)
      qed
    qed
    from wf have "next_sref w \<notin> set (subscriptions (topic_heap w t))"
      by (auto simp: wf_World_def subs_ok_def)
    then have "map (\<lambda>r. id_sub (sub_heap (snd (subscribe w t' cb options)) r))
                 (subscriptions (topic_heap w t)) =
               map (\<lambda>r. id_sub (sub_heap w r)) (subscriptions (topic_heap w t))"
      unfolding subscribe_new [OF None, of cb] by (auto simp: map_eq_conv)
    with ne show ?thesis
      unfolding w' same_ids_def using subscribe_new [OF None, of cb] by simp
  qed
qed

lemma keeps_ids_cong:
  assumes "same_ids w w' t"
  shows "keeps_ids w' t a = keeps_ids w t a"
  by (simp add: keeps_ids_def same_ids_maybeExisting [OF assms] cong: action.case_cong option.case_cong)

lemma same_ids_run:
  assumes "wf_World w" and "t < next_tref w"
    and "maybeExisting_of w t (nextSubId (topic_heap w t)) \<noteq> None"
    and "\<forall>a\<in>set as. keeps_ids w t a"
    and "run w as = Some w'"
  shows "same_ids w w' t"
  using assms
proof (induction as arbitrary: w)
  case Nil
  then show ?case by (simp add: same_ids_refl)
next
  case (Cons a as)
  from Cons.prems(5) obtain w1 where w1: "step w a = Some w1" and rest: "run w1 as = Some w'"
    by (auto split: option.splits)
  from Cons.prems(4) have a: "keeps_ids w t a" by simp
  note s1 = same_ids_step [OF Cons.prems(1-3) a w1]
  have wf1: "wf_World w1" using Cons.prems(1) w1 by (rule wf_step)
  have t1: "t < next_tref w1" using Cons.prems(2) next_tref_step [OF w1] by simp
  have st1: "maybeExisting_of w1 t (nextSubId (topic_heap w1 t)) \<noteq> None"
    using Cons.prems(3) s1 same_ids_maybeExisting [OF s1] by (simp add: same_ids_def)
  have ok1: "\<forall>a\<in>set as. keeps_ids w1 t a"
    using Cons.prems(4) keeps_ids_cong [OF s1] by simp
  from Cons.IH [OF wf1 t1 st1 ok1 rest] s1 show ?case by (rule same_ids_trans [rotated])
qed

text \<open>
  Claim C10, amended. In a world of a run, let the topic \<open>t\<close> have a subscription whose id is
  \<open>nextSubId\<close>, and let \<open>r\<close> be the first one in its list. Then after any further calls, none of
  them a \<open>subscribe\<close> on \<open>t\<close> with an explicit id that \<open>t\<close> does not have, the list of
  subscriptions of \<open>t\<close> and its \<open>nextSubId\<close> are the same, and a \<open>subscribe\<close> on \<open>t\<close> without an
  id resolves to the id \<open>nextSubId\<close>, returns \<open>r\<close>, allocates nothing and changes no topic: it
  takes the update path.
\<close>

theorem auto_id_stuck:
  assumes "run init_World pre = Some w"
    and "t < next_tref w"
    and "maybeExisting_of w t (nextSubId (topic_heap w t)) = Some r"
    and "\<forall>a\<in>set as. keeps_ids w t a"
    and "run w as = Some w'"
    and "id_given options = None"
  shows "subscriptions (topic_heap w' t) = subscriptions (topic_heap w t) \<and>
     nextSubId (topic_heap w' t) = nextSubId (topic_heap w t) \<and>
     id_of (topic_heap w' t) options = nextSubId (topic_heap w t) \<and>
     id_sub (sub_heap w' r) = nextSubId (topic_heap w t) \<and>
     fst (subscribe w' t cb options) = r \<and>
     topic_heap (snd (subscribe w' t cb options)) = topic_heap w' \<and>
     next_sref (snd (subscribe w' t cb options)) = next_sref w'"
proof -
  from assms(1) have wf: "wf_World w" by (rule wf_reachable)
  from assms(3) have st: "maybeExisting_of w t (nextSubId (topic_heap w t)) \<noteq> None" by simp
  note same = same_ids_run [OF wf assms(2) st assms(4,5)]
  from same have subs: "subscriptions (topic_heap w' t) = subscriptions (topic_heap w t)"
    and nxt: "nextSubId (topic_heap w' t) = nextSubId (topic_heap w t)"
    by (simp_all add: same_ids_def)
  from assms(6) have i: "id_of (topic_heap w' t) options = nextSubId (topic_heap w' t)"
    by (simp add: id_of_def)
  from same_ids_maybeExisting [OF same] assms(3) nxt
  have st': "maybeExisting_of w' t (nextSubId (topic_heap w' t)) = Some r" by simp
  with i have ex: "maybeExisting_of w' t (id_of (topic_heap w' t) options) = Some r" by simp
  from maybeExisting_of_in_list [OF st'] nxt
  have idr: "id_sub (sub_heap w' r) = nextSubId (topic_heap w t)" by simp
  from subscribe_existing [OF ex, of cb] subs nxt i idr show ?thesis by simp
qed

theorem auto_id_stuck_witness:
  "run init_World [GetTopic \<lparr>topics = []\<rparr> ''demo'' None, Subscribe 0 1 (opt_id 1)] =
     Some run_stuck \<and>
   0 < next_tref run_stuck \<and>
   maybeExisting_of run_stuck 0 (nextSubId (topic_heap run_stuck 0)) = Some 0 \<and>
   list_all (keeps_ids run_stuck 0)
     [Subscribe 0 2 None, SendMessage 0 10 100, Subscribe 0 3 (opt_strategy LATEST),
      Unsubscribe 0, Subscribe 0 4 (opt_id 1), GetTopic \<lparr>topics = [0]\<rparr> ''other'' (Some 3),
      Subscribe 1 5 (opt_id 9)] \<and>
   run run_stuck
     [Subscribe 0 2 None, SendMessage 0 10 100, Subscribe 0 3 (opt_strategy LATEST),
      Unsubscribe 0, Subscribe 0 4 (opt_id 1), GetTopic \<lparr>topics = [0]\<rparr> ''other'' (Some 3),
      Subscribe 1 5 (opt_id 9)] = Some run_stuck_more \<and>
   nextSubId (topic_heap run_stuck 0) = 1 \<and>
   subscriptions (topic_heap run_stuck 0) = [0] \<and>
   subscriptions (topic_heap run_stuck_more 0) = [0] \<and>
   nextSubId (topic_heap run_stuck_more 0) = 1 \<and>
   subscriptions (topic_heap run_stuck_more 1) = [1] \<and>
   fst (subscribe run_stuck_more 0 6 None) = 0 \<and>
   nextSubId (topic_heap (snd (subscribe run_stuck_more 0 6 None)) 0) = 1 \<and>
   subscriptions (topic_heap (snd (subscribe run_stuck_more 0 6 None)) 0) = [0]"
proof -
  let ?as = "[Subscribe 0 2 None, SendMessage 0 10 100, Subscribe 0 3 (opt_strategy LATEST),
      Unsubscribe 0, Subscribe 0 4 (opt_id 1), GetTopic \<lparr>topics = [0]\<rparr> ''other'' (Some 3),
      Subscribe 1 5 (opt_id 9)] :: nat action list"
  have h1: "run init_World [GetTopic \<lparr>topics = []\<rparr> ''demo'' None, Subscribe 0 1 (opt_id 1)] =
     Some run_stuck"
    by (simp add: run_stuck_def fresh_topic_def)
  have h2: "0 < next_tref run_stuck" by code_simp
  have h3: "maybeExisting_of run_stuck 0 (nextSubId (topic_heap run_stuck 0)) = Some 0"
    by code_simp
  have h4: "\<forall>a\<in>set ?as. keeps_ids run_stuck 0 a" by code_simp
  have "\<not> Option.is_none (run run_stuck ?as)" by code_simp
  then have h5: "run run_stuck ?as = Some run_stuck_more"
    by (auto simp: run_stuck_more_def Option.is_none_def)
  have h6: "id_given None = None" by (simp add: id_given_def)
  have e: "nextSubId (topic_heap run_stuck 0) = 1" "subscriptions (topic_heap run_stuck 0) = [0]"
    "subscriptions (topic_heap run_stuck_more 1) = [1]"
    by code_simp+
  from h4 have h4': "list_all (keeps_ids run_stuck 0) ?as" by (simp only: list_all_iff)
  from auto_id_stuck [OF h1 h2 h3 h4 h5 h6, of 6] h1 h2 h3 h4' h5 e show ?thesis
    by simp
qed

text \<open>
  Claim C10 as stated says that \<open>subscribe\<close> without an id can never again make a
  subscription. The creation path increments \<open>nextSubId\<close> for an explicit id too: on the
  topic whose only subscription has the id \<open>1 = nextSubId\<close>, a call with the new id \<open>7\<close>
  moves \<open>nextSubId\<close> to \<open>2\<close>, and the next call without an id makes the subscription \<open>2\<close>.
\<close>

theorem auto_id_unstuck_by_explicit_id:
  "maybeExisting_of run_stuck 0 (nextSubId (topic_heap run_stuck 0)) = Some 0 \<and>
   subscriptions (topic_heap run_stuck 0) = [0] \<and>
   nextSubId (topic_heap run_unstuck 0) = 2 \<and>
   maybeExisting_of run_unstuck 0 (id_of (topic_heap run_unstuck 0) None) = None \<and>
   fst (subscribe run_unstuck 0 3 None) = 2 \<and>
   id_sub (sub_heap (snd (subscribe run_unstuck 0 3 None)) 2) = 2 \<and>
   subscriptions (topic_heap (snd (subscribe run_unstuck 0 3 None)) 0) = [0, 1, 2] \<and>
   nextSubId (topic_heap (snd (subscribe run_unstuck 0 3 None)) 0) = 3"
  by code_simp

end
